theory Spec2Isabelle
  imports Main "HOL-Library.AList" "HOL-Library.Multiset" "HOL-Library.Char_ord"
    "HOL-Library.List_Lexorder"
begin

section \<open>Python strings\<close>

text \<open>
  A Python \<^verbatim>\<open>str\<close> is modelled as a \<^typ>\<open>string\<close> of ASCII characters. The three
  string operations the pipeline uses are \<^verbatim>\<open>s.lower()\<close>, \<^verbatim>\<open>s.strip()\<close> and the
  substring test \<^verbatim>\<open>sub in s\<close>. On ASCII text \<^verbatim>\<open>lower\<close> maps A..Z to a..z and
  \<^verbatim>\<open>strip\<close> removes the leading and trailing characters for which
  \<^verbatim>\<open>str.isspace\<close> holds: tab, line feed, vertical tab, form feed, carriage return, the
  four separators 0x1C..0x1F and the blank. Characters above 0x7F are outside the model:
  they are treated as neither letters nor white space.
\<close>

definition lower_char :: "char \<Rightarrow> char" where
  "lower_char c =
     (case map_of (zip ''ABCDEFGHIJKLMNOPQRSTUVWXYZ'' ''abcdefghijklmnopqrstuvwxyz'') c of
        Some d \<Rightarrow> d
      | None \<Rightarrow> c)"

definition lower :: "string \<Rightarrow> string" where
  "lower s = map lower_char s"

definition isspace :: "char \<Rightarrow> bool" where
  "isspace c \<longleftrightarrow>
     c \<in> set [CHR 0x09, CHR 0x0A, CHR 0x0B, CHR 0x0C, CHR 0x0D,
              CHR 0x1C, CHR 0x1D, CHR 0x1E, CHR 0x1F, CHR 0x20]"

definition strip :: "string \<Rightarrow> string" where
  "strip s = rev (dropWhile isspace (rev (dropWhile isspace s)))"

fun startswith :: "string \<Rightarrow> string \<Rightarrow> bool" where
  "startswith s [] = True"
| "startswith [] (p # ps) = False"
| "startswith (c # cs) (p # ps) = (c = p \<and> startswith cs ps)"

text \<open>\<^verbatim>\<open>sub in s\<close>: \<open>sub\<close> occurs in \<open>s\<close> as a contiguous substring.\<close>

fun is_in :: "string \<Rightarrow> string \<Rightarrow> bool" where
  "is_in sub [] = (sub = [])"
| "is_in sub (c # cs) = (startswith (c # cs) sub \<or> is_in sub cs)"

text \<open>\<^verbatim>\<open>any(kw in label for kw in kws)\<close>\<close>

definition any_in :: "string list \<Rightarrow> string \<Rightarrow> bool" where
  "any_in kws label = list_ex (\<lambda>kw. is_in kw label) kws"

section \<open>The graph model (Myparser/graphml\_parser.py)\<close>

text \<open>
  \<^verbatim>\<open>class Node\<close> has the fields \<^verbatim>\<open>id\<close>, \<^verbatim>\<open>label\<close>, \<^verbatim>\<open>shape\<close> and
  \<^verbatim>\<open>metadata\<close>, \<^verbatim>\<open>class Edge\<close> the fields \<^verbatim>\<open>source\<close>, \<^verbatim>\<open>target\<close> and
  \<^verbatim>\<open>label\<close>. Labels and shapes are strings (the loader never stores \<^verbatim>\<open>None\<close>), so
  \<^verbatim>\<open>(x or "")\<close> is the identity on them. A Python \<^verbatim>\<open>dict\<close> is an association list
  kept in insertion order: \<^const>\<open>AList.update\<close> overwrites the value of a key that is
  present and appends a new key at the end, as a \<^verbatim>\<open>dict\<close> does.
\<close>

record node =
  node_id :: string
  node_label :: string
  node_shape :: string
  node_metadata :: "(string \<times> string) list"

record edge =
  edge_source :: string
  edge_target :: string
  edge_label :: string

text \<open>\<^verbatim>\<open>d.get(k, default)\<close>\<close>

definition dict_get :: "('k \<times> 'v) list \<Rightarrow> 'k \<Rightarrow> 'v \<Rightarrow> 'v" where
  "dict_get d k dflt = (case map_of d k of None \<Rightarrow> dflt | Some v \<Rightarrow> v)"

section \<open>The graph loader (Myparser/graphml\_parser.py)\<close>

text \<open>
  \<^verbatim>\<open>xml.etree.ElementTree\<close> is the library; the model starts from what
  \<^verbatim>\<open>ET.parse(file_path)\<close> gives: an exception (a missing file, markup that does not
  parse) or the root element. An element has a tag, its attributes, an optional text and
  its children. A tag is written with the prefix the loader's namespace table gives it
  (\<^verbatim>\<open>graphml:graph\<close>, \<^verbatim>\<open>y:Shape\<close>).
\<close>

datatype xml = Element (xml_tag: string) (xml_attrib: "(string \<times> string) list")
  (xml_text: "string option") (xml_children: "xml list")

datatype error = ParseError | OSError | KeyError string | UnboundLocalError string
  | RecursionError

text \<open>\<^verbatim>\<open>elem.findall("p:tag", ns)\<close>: the children with that tag, in document order.\<close>

definition findall :: "string \<Rightarrow> xml \<Rightarrow> xml list" where
  "findall t e = filter (\<lambda>c. xml_tag c = t) (xml_children e)"

text \<open>\<^verbatim>\<open>elem.find("p:tag", ns)\<close>: the first child with that tag.\<close>

definition find_child :: "string \<Rightarrow> xml \<Rightarrow> xml option" where
  "find_child t e = find (\<lambda>c. xml_tag c = t) (xml_children e)"

text \<open>The elements below an element, in document order.\<close>

fun descendants :: "xml \<Rightarrow> xml list" where
  "descendants (Element t a x cs) = concat (map (\<lambda>c. c # descendants c) cs)"

text \<open>\<^verbatim>\<open>elem.find(".//p:tag", ns)\<close>: the first element below \<open>e\<close> with that tag.\<close>

definition find_descendant :: "string \<Rightarrow> xml \<Rightarrow> xml option" where
  "find_descendant t e = find (\<lambda>c. xml_tag c = t) (descendants e)"

text \<open>\<^verbatim>\<open>elem.attrib.get(k, "")\<close> and \<^verbatim>\<open>elem.attrib[k]\<close>\<close>

definition attrib_get :: "xml \<Rightarrow> string \<Rightarrow> string" where
  "attrib_get e k = dict_get (xml_attrib e) k ''''"

definition attrib_item :: "xml \<Rightarrow> string \<Rightarrow> error + string" where
  "attrib_item e k = (case map_of (xml_attrib e) k of None \<Rightarrow> Inl (KeyError k) | Some v \<Rightarrow> Inr v)"

text \<open>\<^verbatim>\<open>(elem.text or "")\<close>\<close>

definition text_or_empty :: "xml \<Rightarrow> string" where
  "text_or_empty e = (case xml_text e of None \<Rightarrow> '''' | Some t \<Rightarrow> t)"

text \<open>\<^verbatim>\<open>config.split(".")[-1]\<close>: what follows the last dot.\<close>

definition last_segment :: "string \<Rightarrow> string" where
  "last_segment config = rev (takeWhile (\<lambda>c. c \<noteq> CHR ''.'') (rev config))"

definition shape_of_config :: "string \<Rightarrow> string" where
  "shape_of_config config =
     (if is_in ''terminator'' config \<or> is_in ''start'' config then ''ellipse''
      else if is_in ''decision'' config then ''diamond''
      else if is_in ''data'' config \<or> is_in ''input'' config then ''parallelogram''
      else if is_in ''process'' config then ''rectangle''
      else last_segment config)"

text \<open>
  The body of \<^verbatim>\<open>for node in graph.findall("graphml:node", ns)\<close>. The local variable
  \<^verbatim>\<open>generic\<close> is assigned only inside the third \<^verbatim>\<open>if not shape:\<close>, and it is a
  variable of the function, not of the iteration: it is unbound (\<open>None\<close>) until an
  iteration reaches that assignment and keeps its value (\<open>Some g\<close>, where \<open>g\<close> is the
  element found or Python's \<^verbatim>\<open>None\<close>) in the iterations after it. Reading it unbound
  raises \<^verbatim>\<open>UnboundLocalError\<close>. The result is the node and the new binding.
\<close>

definition parse_node :: "xml option option \<Rightarrow> xml \<Rightarrow> error + (node \<times> xml option option)" where
  "parse_node generic e =
     (case attrib_item e ''id'' of
        Inl err \<Rightarrow> Inl err
      | Inr nid \<Rightarrow>
          (let label = (case find_descendant ''y:NodeLabel'' e of
                          None \<Rightarrow> ''''
                        | Some label_elem \<Rightarrow> strip (text_or_empty label_elem));
               shape1 = (case find_descendant ''y:Shape'' e of
                           None \<Rightarrow> ''''
                         | Some shape_elem \<Rightarrow> lower (attrib_get shape_elem ''type''));
               shape2 = (if shape1 = ''''
                         then (case find_descendant ''y:FlowchartShape'' e of
                                 None \<Rightarrow> shape1
                               | Some fc_shape \<Rightarrow> lower (attrib_get fc_shape ''type''))
                         else shape1);
               (shape, generic') =
                 (if shape2 = ''''
                  then (case find_descendant ''y:GenericNode'' e of
                          None \<Rightarrow> (shape2, Some None)
                        | Some g \<Rightarrow>
                            (shape_of_config (lower (attrib_get g ''configuration'')),
                             Some (Some g)))
                  else (shape2, generic))
           in case generic' of
                None \<Rightarrow> Inl (UnboundLocalError ''generic'')
              | Some bound \<Rightarrow>
                  (let raw_config = (case bound of
                                       None \<Rightarrow> ''''
                                     | Some g \<Rightarrow> attrib_get g ''configuration'');
                       metadata = [(''raw_shape'', shape), (''raw_config'', raw_config)]
                   in Inr (\<lparr>node_id = nid, node_label = label, node_shape = shape,
                             node_metadata = metadata\<rparr>, generic'))))"

fun parse_nodes :: "xml option option \<Rightarrow> xml list \<Rightarrow> error + node list" where
  "parse_nodes generic [] = Inr []"
| "parse_nodes generic (e # es) =
     (case parse_node generic e of
        Inl err \<Rightarrow> Inl err
      | Inr (n, generic') \<Rightarrow>
          (case parse_nodes generic' es of
             Inl err \<Rightarrow> Inl err
           | Inr ns \<Rightarrow> Inr (n # ns)))"

definition parse_edge :: "xml \<Rightarrow> error + edge" where
  "parse_edge e =
     (case attrib_item e ''source'' of
        Inl err \<Rightarrow> Inl err
      | Inr source \<Rightarrow>
          (case attrib_item e ''target'' of
             Inl err \<Rightarrow> Inl err
           | Inr target \<Rightarrow>
               (let label = (case find_descendant ''y:EdgeLabel'' e of
                               None \<Rightarrow> ''''
                             | Some label_elem \<Rightarrow> lower (strip (text_or_empty label_elem)))
                in Inr \<lparr>edge_source = source, edge_target = target, edge_label = label\<rparr>)))"

fun parse_edges :: "xml list \<Rightarrow> error + edge list" where
  "parse_edges [] = Inr []"
| "parse_edges (e # es) =
     (case parse_edge e of
        Inl err \<Rightarrow> Inl err
      | Inr x \<Rightarrow> (case parse_edges es of Inl err \<Rightarrow> Inl err | Inr xs \<Rightarrow> Inr (x # xs)))"

text \<open>The body of the \<^verbatim>\<open>try\<close> block: \<open>Inl\<close> is an exception that leaves it.\<close>

definition parse_body :: "error + xml \<Rightarrow> error + (node list \<times> edge list)" where
  "parse_body parsed =
     (case parsed of
        Inl err \<Rightarrow> Inl err
      | Inr root \<Rightarrow>
          (case find_child ''graphml:graph'' root of
             None \<Rightarrow> Inr ([], [])
           | Some graph \<Rightarrow>
               (case parse_nodes None (findall ''graphml:node'' graph) of
                  Inl err \<Rightarrow> Inl err
                | Inr nodes \<Rightarrow>
                    (case parse_edges (findall ''graphml:edge'' graph) of
                       Inl err \<Rightarrow> Inl err
                     | Inr edges \<Rightarrow> Inr (nodes, edges)))))"

text \<open>
  \<^verbatim>\<open>parse_graphml\<close>: the \<^verbatim>\<open>try\<close> block with its handler
  \<^verbatim>\<open>except Exception\<close>, which logs the exception and returns two empty lists. The result
  is \<open>Inl\<close> when an exception leaves the function.
\<close>

definition parse_graphml :: "error + xml \<Rightarrow> error + (node list \<times> edge list)" where
  "parse_graphml parsed =
     (case parse_body parsed of
        Inl err \<Rightarrow> Inr ([], [])
      | Inr result \<Rightarrow> Inr result)"

section \<open>The diagram classifier (classifier/diagram\_type.py)\<close>

text \<open>
  \<^verbatim>\<open>scores\<close> is a \<^verbatim>\<open>dict\<close> with five keys in a fixed insertion order;
  \<^verbatim>\<open>scores[k] += n\<close> keeps the position of the key. Scores are Python integers.
\<close>

definition uml_keywords :: "string list" where
  "uml_keywords = [''class'', ''attribute'', ''method'', ''<<interface>>'', ''<<abstract>>'']"

definition flowchart_keywords :: "string list" where
  "flowchart_keywords =
     [''start'', ''stop'', ''input'', ''output'', ''decision'', ''process'', ''end'']"

definition sequence_keywords :: "string list" where
  "sequence_keywords = [''activate'', ''deactivate'', ''message'', ''return'', ''lifeline'']"

definition er_keywords :: "string list" where
  "er_keywords = [''entity'', ''relation'', ''attribute'', ''primary key'', ''foreign key'']"

definition activity_keywords :: "string list" where
  "activity_keywords = [''activity'', ''fork'', ''join'', ''action'', ''swimlane'']"

definition initial_scores :: "(string \<times> int) list" where
  "initial_scores =
     [(''UML Class Diagram'', 0), (''Flowchart'', 0), (''UML Sequence Diagram'', 0),
      (''ER Diagram'', 0), (''UML Activity Diagram'', 0)]"

text \<open>\<^verbatim>\<open>scores[k] += n\<close>\<close>

definition add_score :: "string \<Rightarrow> int \<Rightarrow> (string \<times> int) list \<Rightarrow> (string \<times> int) list" where
  "add_score k n scores = AList.update k (dict_get scores k 0 + n) scores"

text \<open>The body of \<^verbatim>\<open>for node in nodes\<close>: steps 1 to 3.\<close>

definition score_node :: "(string \<times> int) list \<Rightarrow> node \<Rightarrow> (string \<times> int) list" where
  "score_node scores n =
     (let label = lower (node_label n);
          shape = lower (node_shape n);
          s1 = (if shape \<in> set [''diamond'', ''parallelogram'', ''ellipse'', ''document'',
                                 ''offpageconnector'']
                then add_score ''Flowchart'' 2 scores
                else if shape \<in> set [''rectangle'', ''roundrectangle'']
                then add_score ''UML Class Diagram'' 1 (add_score ''Flowchart'' 1 scores)
                else if shape = ''hexagon''
                then add_score ''UML Activity Diagram'' 2 scores
                else scores);
          s2 = (if any_in flowchart_keywords label then add_score ''Flowchart'' 2 s1 else s1);
          s3 = (if any_in uml_keywords label then add_score ''UML Class Diagram'' 2 s2 else s2);
          s4 = (if any_in sequence_keywords label
                then add_score ''UML Sequence Diagram'' 2 s3 else s3);
          s5 = (if any_in er_keywords label then add_score ''ER Diagram'' 2 s4 else s4);
          s6 = (if any_in activity_keywords label
                then add_score ''UML Activity Diagram'' 2 s5 else s5);
          s7 = (if is_in ''::'' label
                   \<or> (is_in ''class'' label \<and> is_in ''{'' label \<and> is_in ''}'' label)
                then add_score ''UML Class Diagram'' 3 s6 else s6);
          s8 = (if is_in ''('' label \<and> is_in '')'' label \<and> is_in '':'' label
                then add_score ''UML Class Diagram'' 2 s7 else s7)
      in s8)"

definition node_scores :: "node list \<Rightarrow> (string \<times> int) list" where
  "node_scores nodes = foldl score_node initial_scores nodes"

text \<open>
  \<^verbatim>\<open>max(scores.items(), key=lambda x: x[1])\<close>: the first item with the greatest score
  (a later item replaces the best one only when its score is strictly greater). The
  dictionary always has its five items, so the empty case is never reached.
\<close>

definition max_item :: "(string \<times> int) list \<Rightarrow> string \<times> int" where
  "max_item items =
     (case items of
        [] \<Rightarrow> ('''', 0)
      | x # xs \<Rightarrow> foldl (\<lambda>best y. if snd best < snd y then y else best) x xs)"

definition classify_diagram_type :: "node list \<Rightarrow> string" where
  "classify_diagram_type nodes =
     (let scores = node_scores nodes;
          (top_type, top_score) = max_item scores;
          second_score = rev (sort (map snd scores)) ! 1
      in if top_score = 0 then ''Unknown''
         else if top_type = ''UML Class Diagram'' \<and> dict_get scores ''Flowchart'' 0 > 2
                 \<and> top_score - dict_get scores ''Flowchart'' 0 \<le> 1
         then ''Flowchart''
         else if top_score - second_score \<ge> 2 then top_type
         else if top_score \<ge> 4 then top_type
         else ''Flowchart'')"

section \<open>The role classifier (classifier/shape\_label.py)\<close>

text \<open>
  On ASCII text \<^verbatim>\<open>\w\<close> matches letters, digits and the underscore, and
  \<^verbatim>\<open>str.isidentifier\<close> holds for a non-empty string of such characters that does not
  start with a digit.
\<close>

definition is_letter :: "char \<Rightarrow> bool" where
  "is_letter c \<longleftrightarrow>
     c \<in> set ''abcdefghijklmnopqrstuvwxyzABCDEFGHIJKLMNOPQRSTUVWXYZ''"

definition is_word_char :: "char \<Rightarrow> bool" where
  "is_word_char c \<longleftrightarrow> is_letter c \<or> c \<in> set ''0123456789_''"

definition isidentifier :: "string \<Rightarrow> bool" where
  "isidentifier s \<longleftrightarrow>
     (case s of
        [] \<Rightarrow> False
      | c # cs \<Rightarrow> (is_letter c \<or> c = CHR ''_'') \<and> list_all is_word_char cs)"

text \<open>
  \<^verbatim>\<open>re.match(r"^\w+\(.*\)$", label)\<close>: the longest prefix of word characters is not empty
  and is followed by an opening parenthesis; the rest ends with a closing parenthesis and has
  no line feed before it (\<^verbatim>\<open>.\<close> matches no line feed). \<^verbatim>\<open>$\<close> matches at the end
  of the string and before a line feed that ends the string.
\<close>

definition dot_star_paren :: "string \<Rightarrow> bool" where
  "dot_star_paren m \<longleftrightarrow> m \<noteq> [] \<and> last m = CHR '')'' \<and> CHR 0x0A \<notin> set (butlast m)"

definition re_match_method :: "string \<Rightarrow> bool" where
  "re_match_method label \<longleftrightarrow>
     takeWhile is_word_char label \<noteq> [] \<and>
     (case dropWhile is_word_char label of
        [] \<Rightarrow> False
      | c # m \<Rightarrow>
          c = CHR ''('' \<and>
          (dot_star_paren m \<or> (m \<noteq> [] \<and> last m = CHR 0x0A \<and> dot_star_paren (butlast m))))"

definition flowchart_role :: "string \<Rightarrow> string \<Rightarrow> string" where
  "flowchart_role label shape =
     (if shape \<in> set [''ellipse'', ''terminator'', ''start1''] \<or> is_in ''start'' label
      then ''Start''
      else if is_in ''end'' label \<or> is_in ''stop'' label then ''End''
      else if shape = ''diamond'' \<or> is_in ''?'' label
              \<or> any_in [''if'', ''check'', ''compare'', ''do'', ''can'', ''should'', ''else''] label
      then ''Decision''
      else if any_in [''repeat'', ''loop'', ''again'', ''while'', ''for''] label then ''Loop''
      else if shape \<in> set [''parallelogram'', ''input'', ''document'']
              \<or> any_in [''input'', ''scan'', ''read'', ''enter''] label
      then ''Input''
      else if shape \<in> set [''output'', ''display'']
              \<or> any_in [''print'', ''display'', ''output'', ''show''] label
      then ''Output''
      else if shape \<in> set [''rectangle'', ''roundrectangle'', ''box''] then ''Process''
      else if shape \<in> set [''offpageconnector'', ''jump'', ''connector''] then ''Jump''
      else if is_in ''print'' label then ''Output''
      else if is_in ''input'' label \<or> is_in ''scan'' label then ''Input''
      else ''Process'')"

definition uml_class_role :: "string \<Rightarrow> string \<Rightarrow> string" where
  "uml_class_role label shape =
     (if any_in [''<<interface>>'', ''<<abstract>>'', ''interface'', ''abstract''] label
      then ''Interface''
      else if startswith label ''class'' \<or> is_in ''class'' label then ''Class''
      else if is_in ''{'' label \<and> is_in ''}'' label then ''Class''
      else if re_match_method label then ''Method''
      else if is_in '':'' label \<or> is_in ''='' label
              \<or> any_in [''int'', ''str'', ''float'', ''bool'', ''string'', ''boolean'', ''void'']
                   label
      then ''Attribute''
      else if shape = ''rectangle'' \<and> isidentifier label then ''Attribute''
      else ''Unknown UML Part'')"

definition sequence_role :: "string \<Rightarrow> string" where
  "sequence_role label =
     (if is_in ''lifeline'' label then ''Lifeline''
      else if is_in ''message'' label \<or> is_in ''-->'' label then ''Message''
      else ''Actor'')"

text \<open>
  The ER and activity cascades have no \<^verbatim>\<open>else\<close>: the role keeps the value
  \<^verbatim>\<open>"Unknown"\<close> it was initialised with, which is the argument \<open>role\<close> here.
\<close>

definition er_role :: "string \<Rightarrow> string \<Rightarrow> string" where
  "er_role label role =
     (if is_in ''entity'' label then ''Entity''
      else if is_in ''attribute'' label then ''Attribute''
      else if is_in ''relation'' label \<or> is_in ''relationship'' label then ''Relationship''
      else role)"

definition activity_role :: "string \<Rightarrow> string \<Rightarrow> string" where
  "activity_role label role =
     (if is_in ''fork'' label then ''Fork''
      else if is_in ''join'' label then ''Join''
      else if is_in ''action'' label \<or> is_in ''activity'' label then ''Action''
      else if is_in ''swimlane'' label then ''Swimlane''
      else role)"

text \<open>The body of \<^verbatim>\<open>for node in nodes\<close> up to the assignment of \<^verbatim>\<open>role\<close>.\<close>

definition node_role :: "string \<Rightarrow> node \<Rightarrow> string" where
  "node_role diagram_type n =
     (let label = lower (strip (node_label n));
          shape = lower (strip (node_shape n));
          role = ''Unknown''
      in if diagram_type = ''Flowchart'' then flowchart_role label shape
         else if diagram_type = ''UML Class Diagram'' then uml_class_role label shape
         else if diagram_type = ''UML Sequence Diagram'' then sequence_role label
         else if diagram_type = ''ER Diagram'' then er_role label role
         else if diagram_type = ''UML Activity Diagram'' then activity_role label role
         else role)"

text \<open>
  \<^verbatim>\<open>classify_node_roles\<close>. The optional \<^verbatim>\<open>edges\<close> only fill
  \<^verbatim>\<open>edge_label_map\<close>, which nothing reads.
\<close>

definition classify_node_roles ::
  "node list \<Rightarrow> string \<Rightarrow> edge list option \<Rightarrow> (string \<times> string) list" where
  "classify_node_roles nodes diagram_type edges =
     (let edge_label_map =
            (case edges of
               None \<Rightarrow> []
             | Some es \<Rightarrow>
                 foldl (\<lambda>m e. AList.update (edge_source e, edge_target e)
                                 (lower (strip (edge_label e))) m) [] es)
      in foldl (\<lambda>node_roles n. AList.update (node_id n) (node_role diagram_type n) node_roles)
           [] nodes)"

section \<open>The traverser (traverser/graph\_traverser.py)\<close>

fun find_start_loop :: "node list \<Rightarrow> string option" where
  "find_start_loop [] = None"
| "find_start_loop (n # ns) =
     (let label = lower (node_label n); shape = lower (node_shape n) in
      if is_in ''start'' label \<or> shape \<in> set [''start1'', ''terminator'', ''ellipse'']
      then Some (node_id n)
      else find_start_loop ns)"

definition find_start_node :: "node list \<Rightarrow> string option" where
  "find_start_node nodes =
     (case find_start_loop nodes of
        Some i \<Rightarrow> Some i
      | None \<Rightarrow> (case nodes of [] \<Rightarrow> None | n # ns \<Rightarrow> Some (node_id n)))"

text \<open>
  \<^verbatim>\<open>build_adjacency\<close>: \<^verbatim>\<open>adj\<close> is a \<^verbatim>\<open>defaultdict(list)\<close>, so
  \<^verbatim>\<open>adj[edge.source].append(edge.target)\<close> creates the entry when it is missing.
\<close>

definition build_adjacency ::
  "edge list \<Rightarrow> (string \<times> string list) list \<times> ((string \<times> string) \<times> string) list" where
  "build_adjacency edges =
     foldl (\<lambda>(adj, edge_labels) e.
              (AList.update (edge_source e) (dict_get adj (edge_source e) [] @ [edge_target e]) adj,
               AList.update (edge_source e, edge_target e) (lower (strip (edge_label e)))
                 edge_labels))
       ([], []) edges"

text \<open>
  The state of the \<^verbatim>\<open>while queue:\<close> loop of \<^verbatim>\<open>traverse_graph\<close>: the deque, the
  visited set, the order list and the \<^verbatim>\<open>defaultdict(int)\<close> of visit counts (a missing
  key reads as 0).
\<close>

record bfs_state =
  queue :: "string list"
  visited :: "string set"
  order :: "string list"
  visit_count :: "string \<Rightarrow> nat"

text \<open>The inner \<^verbatim>\<open>for neighbor in adj.get(current, [])\<close> loop.\<close>

fun enqueue_neighbors ::
  "string list \<Rightarrow> string list \<times> (string \<Rightarrow> nat) \<Rightarrow> string list \<times> (string \<Rightarrow> nat)" where
  "enqueue_neighbors [] (q, vc) = (q, vc)"
| "enqueue_neighbors (neighbor # ns) (q, vc) =
     (if vc neighbor < 3
      then enqueue_neighbors ns (q @ [neighbor], vc(neighbor := vc neighbor + 1))
      else enqueue_neighbors ns (q, vc))"

text \<open>One iteration of the \<^verbatim>\<open>while\<close> loop body (the identity on an empty queue).\<close>

definition bfs_step :: "(string \<times> string list) list \<Rightarrow> bfs_state \<Rightarrow> bfs_state" where
  "bfs_step adj st =
     (case queue st of
        [] \<Rightarrow> st
      | current # rest \<Rightarrow>
          (let (vis, ord) =
                 (if current \<notin> visited st
                  then (insert current (visited st), order st @ [current])
                  else (visited st, order st));
               (q, vc) = enqueue_neighbors (dict_get adj current []) (rest, visit_count st)
           in \<lparr>queue = q, visited = vis, order = ord, visit_count = vc\<rparr>))"

text \<open>The set of ids that occur as a neighbour in the adjacency.\<close>

definition adj_targets :: "(string \<times> string list) list \<Rightarrow> string set" where
  "adj_targets adj = \<Union> (set ` snd ` set adj)"

definition bfs_measure :: "(string \<times> string list) list \<Rightarrow> bfs_state \<Rightarrow> nat" where
  "bfs_measure adj st =
     length (queue st) + (\<Sum>t \<in> adj_targets adj. 3 - visit_count st t)"

lemma finite_adj_targets: "finite (adj_targets adj)"
  by (simp add: adj_targets_def)

lemma dict_get_targets: "set (dict_get adj k []) \<subseteq> adj_targets adj"
proof (cases "map_of adj k")
  case None
  then show ?thesis by (simp add: dict_get_def)
next
  case (Some v)
  then have "(k, v) \<in> set adj" by (rule map_of_SomeD)
  then have "set v \<subseteq> adj_targets adj"
    unfolding adj_targets_def by force
  with Some show ?thesis by (simp add: dict_get_def)
qed

lemma enqueue_neighbors_measure:
  assumes "finite T" "set ns \<subseteq> T"
  shows "length (fst (enqueue_neighbors ns (q, vc)))
           + (\<Sum>t \<in> T. 3 - snd (enqueue_neighbors ns (q, vc)) t)
         = length q + (\<Sum>t \<in> T. 3 - vc t)"
  using assms(2)
proof (induction ns arbitrary: q vc)
  case Nil
  then show ?case by simp
next
  case (Cons n ns)
  then have nT: "n \<in> T" and sub: "set ns \<subseteq> T" by auto
  show ?case
  proof (cases "vc n < 3")
    case False
    with Cons.IH [OF sub] show ?thesis by simp
  next
    case True
    define vc' where "vc' = vc(n := vc n + 1)"
    have split: "(\<Sum>t \<in> T. 3 - vc t) = (3 - vc n) + (\<Sum>t \<in> T - {n}. 3 - vc t)"
      using assms(1) nT by (rule sum.remove)
    have split': "(\<Sum>t \<in> T. 3 - vc' t) = (3 - vc' n) + (\<Sum>t \<in> T - {n}. 3 - vc' t)"
      using assms(1) nT by (rule sum.remove)
    have same: "(\<Sum>t \<in> T - {n}. 3 - vc' t) = (\<Sum>t \<in> T - {n}. 3 - vc t)"
      by (rule sum.cong) (auto simp: vc'_def)
    have at_n: "vc' n = vc n + 1"
      by (simp add: vc'_def)
    have less: "(\<Sum>t \<in> T. 3 - vc' t) + 1 = (\<Sum>t \<in> T. 3 - vc t)"
      using True unfolding split split' same at_n by simp
    have unfold: "enqueue_neighbors (n # ns) (q, vc) = enqueue_neighbors ns (q @ [n], vc')"
      using True by (simp add: vc'_def)
    have "length (fst (enqueue_neighbors ns (q @ [n], vc')))
            + (\<Sum>t \<in> T. 3 - snd (enqueue_neighbors ns (q @ [n], vc')) t)
          = length (q @ [n]) + (\<Sum>t \<in> T. 3 - vc' t)"
      by (rule Cons.IH [OF sub])
    also have "\<dots> = length q + (\<Sum>t \<in> T. 3 - vc t)"
      using less by simp
    finally show ?thesis
      unfolding unfold .
  qed
qed

lemma bfs_step_measure:
  assumes "queue st \<noteq> []"
  shows "Suc (bfs_measure adj (bfs_step adj st)) = bfs_measure adj st"
proof -
  from assms obtain current rest where q: "queue st = current # rest"
    by (cases "queue st") auto
  obtain q' vc' where e:
    "enqueue_neighbors (dict_get adj current []) (rest, visit_count st) = (q', vc')"
    by (cases "enqueue_neighbors (dict_get adj current []) (rest, visit_count st)")
  have "length q' + (\<Sum>t \<in> adj_targets adj. 3 - vc' t)
          = length rest + (\<Sum>t \<in> adj_targets adj. 3 - visit_count st t)"
    using enqueue_neighbors_measure [OF finite_adj_targets dict_get_targets,
        of adj current rest "visit_count st"] e by simp
  then show ?thesis
    by (simp add: bfs_measure_def bfs_step_def q e split: if_splits)
qed

text \<open>The \<^verbatim>\<open>while queue:\<close> loop.\<close>

function bfs_loop :: "(string \<times> string list) list \<Rightarrow> bfs_state \<Rightarrow> bfs_state" where
  "bfs_loop adj st = (if queue st = [] then st else bfs_loop adj (bfs_step adj st))"
  by pat_completeness auto
termination
proof (relation "measure (\<lambda>(adj, st). bfs_measure adj st)")
  show "wf (measure (\<lambda>(adj, st). bfs_measure adj st))" by simp
next
  fix adj :: "(string \<times> string list) list" and st :: bfs_state
  assume "queue st \<noteq> []"
  then have "Suc (bfs_measure adj (bfs_step adj st)) = bfs_measure adj st"
    by (rule bfs_step_measure)
  then show "((adj, bfs_step adj st), (adj, st)) \<in> measure (\<lambda>(adj, st). bfs_measure adj st)"
    by simp
qed

declare bfs_loop.simps [simp del]

text \<open>
  \<^verbatim>\<open>list(all_node_ids - set(order))\<close> lists a Python set, whose iteration order the
  language leaves open. The order is the parameter \<open>list_of\<close>: the function that lists
  a set that is not empty. The empty set has one listing only.
\<close>

definition set_to_list :: "(string set \<Rightarrow> string list) \<Rightarrow> string set \<Rightarrow> string list" where
  "set_to_list list_of s = (if s = {} then [] else list_of s)"

text \<open>
  \<^verbatim>\<open>traverse_graph\<close>. The test \<^verbatim>\<open>if not start_node\<close> holds for \<^verbatim>\<open>None\<close> and for
  the empty string. \<^verbatim>\<open>node_map\<close> is built and never read, and the loop does not look
  at \<^verbatim>\<open>edge_labels\<close>.
\<close>

definition initial_state :: "string \<Rightarrow> bfs_state" where
  "initial_state start_node =
     \<lparr>queue = [start_node], visited = {}, order = [], visit_count = (\<lambda>_. 0)\<rparr>"

definition traverse_graph ::
  "(string set \<Rightarrow> string list) \<Rightarrow> node list \<Rightarrow> edge list
     \<Rightarrow> string list \<times> (string \<times> string) list" where
  "traverse_graph list_of nodes edges =
     (let (adj, edge_labels) = build_adjacency edges in
      case find_start_node nodes of
        None \<Rightarrow> ([], [])
      | Some start_node \<Rightarrow>
          if start_node = [] then ([], [])
          else
            (let st = bfs_loop adj (initial_state start_node);
                 all_node_ids = set (map node_id nodes);
                 unreachable = set_to_list list_of (all_node_ids - set (order st));
                 roles = foldl (\<lambda>r n. AList.update (node_id n) ''Unknown'' r) [] nodes
             in (order st @ unreachable, roles)))"

section \<open>The flow interpreter (interpreter/interpreter.py)\<close>

text \<open>
  The logic templates are read from a JSON file beside the module; the table is a
  parameter of the model (the empty table when the file is missing). It maps a role to a
  list of entries, each with its \<^verbatim>\<open>"keywords"\<close> (none when the key is absent) and
  its \<^verbatim>\<open>"logic"\<close>, a string.
\<close>

record template_entry =
  entry_keywords :: "string list"
  entry_logic :: string

definition match_template ::
  "string \<Rightarrow> string \<Rightarrow> (string \<times> template_entry list) list \<Rightarrow> string option" where
  "match_template label role templates =
     (let label_lower = lower label;
          role_templates = dict_get templates role []
      in case find (\<lambda>entry. list_ex (\<lambda>kw. label_lower = lower kw) (entry_keywords entry))
                role_templates of
           Some entry \<Rightarrow> Some (entry_logic entry)
         | None \<Rightarrow>
             (case find (\<lambda>entry. list_ex (\<lambda>kw. is_in (lower kw) label_lower)
                                    (entry_keywords entry))
                     role_templates of
                Some entry \<Rightarrow> Some (entry_logic entry)
              | None \<Rightarrow> None))"

text \<open>
  A step of \<^verbatim>\<open>execution_flow\<close> is a dictionary with six keys that are always set and
  two that are optional: \<^verbatim>\<open>"branches"\<close> and \<^verbatim>\<open>"next_id"\<close>.
\<close>

record branch =
  branch_condition_label :: string
  branch_condition :: string
  branch_target_node_id :: string
  branch_target_label :: string

record step =
  step_node_id :: string
  step_label :: string
  step_role :: string
  step_type :: string
  step_logic_template :: "string option"
  step_flow_type :: string
  step_branches :: "branch list option"
  step_next_id :: "string option"

record node_info =
  info_id :: string
  info_label :: string
  info_shape :: string
  info_role :: string

record edge_info =
  info_source_id :: string
  info_target_id :: string
  info_edge_label :: string

record flowchart_data =
  fd_diagram_type :: string
  fd_nodes :: "node_info list"
  fd_edges :: "edge_info list"
  fd_execution_flow :: "step list"

text \<open>\<^verbatim>\<open>id_to_node = {node.id: node for node in nodes}\<close>\<close>

definition build_id_to_node :: "node list \<Rightarrow> (string \<times> node) list" where
  "build_id_to_node nodes = foldl (\<lambda>m n. AList.update (node_id n) n m) [] nodes"

text \<open>
  \<^verbatim>\<open>next_map.setdefault(edge.source, []).append({"target_id": ..., "label": ...})\<close>:
  an out-edge is the pair of its target id and its stripped, lowercased label.
\<close>

definition build_next_map :: "edge list \<Rightarrow> (string \<times> (string \<times> string) list) list" where
  "build_next_map edges =
     foldl (\<lambda>m e. AList.update (edge_source e)
                     (dict_get m (edge_source e) [] @ [(edge_target e, lower (strip (edge_label e)))])
                     m)
       [] edges"

definition condition_of :: "string \<Rightarrow> string" where
  "condition_of condition_raw =
     (if condition_raw \<in> set [''yes'', ''true'', ''y''] then ''yes''
      else if condition_raw \<in> set [''no'', ''false'', ''n''] then ''no''
      else '''')"

text \<open>The \<^verbatim>\<open>for out in next_nodes\<close> loop that fills \<^verbatim>\<open>step["branches"]\<close>.\<close>

fun make_branches :: "(string \<times> node) list \<Rightarrow> (string \<times> string) list \<Rightarrow> branch list" where
  "make_branches id_to_node [] = []"
| "make_branches id_to_node ((target_id, label) # outs) =
     (case map_of id_to_node target_id of
        None \<Rightarrow> make_branches id_to_node outs
      | Some target \<Rightarrow>
          \<lparr>branch_condition_label = label,
           branch_condition = condition_of label,
           branch_target_node_id = target_id,
           branch_target_label = strip (node_label target)\<rparr>
          # make_branches id_to_node outs)"

definition flow_type_of :: "string \<Rightarrow> string" where
  "flow_type_of role_lower =
     (if role_lower = ''start'' then ''start''
      else if role_lower = ''end'' then ''end''
      else if role_lower = ''decision'' then ''decision''
      else if role_lower = ''loop'' then ''loop''
      else if role_lower \<in> set [''input'', ''output'', ''process'', ''task''] then role_lower
      else if role_lower = ''jump'' then ''jump''
      else if role_lower \<in> set [''class'', ''interface'', ''method'', ''attribute'']
      then ''uml_element''
      else ''generic_action'')"

text \<open>The step that \<^verbatim>\<open>visit_node\<close> builds for a node it has found.\<close>

definition make_step ::
  "(string \<times> template_entry list) list \<Rightarrow> (string \<times> node) list
     \<Rightarrow> (string \<times> (string \<times> string) list) list \<Rightarrow> (string \<times> string) list \<Rightarrow> node \<Rightarrow> step" where
  "make_step templates id_to_node next_map roles n =
     (let label = strip (node_label n);
          role = dict_get roles (node_id n) ''Unknown'';
          shape = strip (node_shape n);
          next_nodes = dict_get next_map (node_id n) [];
          logic = match_template label role templates;
          role_lower = lower role
      in \<lparr>step_node_id = node_id n,
          step_label = label,
          step_role = role,
          step_type = shape,
          step_logic_template = logic,
          step_flow_type = flow_type_of role_lower,
          step_branches =
            (if role_lower = ''decision''
             then Some (make_branches id_to_node next_nodes) else None),
          step_next_id =
            (if length next_nodes = 1 \<and> role_lower \<notin> set [''decision'', ''end'']
             then Some (fst (next_nodes ! 0)) else None)\<rparr>)"

text \<open>
  \<^verbatim>\<open>visit_node\<close> is recursive: it calls itself for every out-edge of the node, in
  order, and each call runs to its end before the next one starts; the caller's loop over
  \<^verbatim>\<open>traversal_order\<close> goes on after that. The pending calls are the first argument
  here, a stack of ids: a call for \<open>nid\<close> with the ids \<open>rest\<close> still pending leaves
  the targets of its out-edges on top of \<open>rest\<close>. The state is the \<^verbatim>\<open>visited\<close> set
  (\<open>vis\<close>) and the \<^verbatim>\<open>execution_flow\<close> list. This is the run when the stack of
  Python is deep enough for it; the recursion with its limit is \<open>visit_node\<close> below.
\<close>

function visit_nodes ::
  "(string \<times> template_entry list) list \<Rightarrow> (string \<times> node) list
     \<Rightarrow> (string \<times> (string \<times> string) list) list \<Rightarrow> (string \<times> string) list
     \<Rightarrow> string list \<Rightarrow> string set \<Rightarrow> step list \<Rightarrow> string set \<times> step list" where
  "visit_nodes templates id_to_node next_map roles [] vis flow = (vis, flow)"
| "visit_nodes templates id_to_node next_map roles (nid # rest) vis flow =
     (if nid \<in> vis then visit_nodes templates id_to_node next_map roles rest vis flow
      else
        (case map_of id_to_node nid of
           None \<Rightarrow>
             visit_nodes templates id_to_node next_map roles rest (insert nid vis) flow
         | Some n \<Rightarrow>
             visit_nodes templates id_to_node next_map roles
               (map fst (dict_get next_map (node_id n) []) @ rest)
               (insert nid vis)
               (flow @ [make_step templates id_to_node next_map roles n])))"
  by pat_completeness auto
termination
proof (relation
    "(\<lambda>(templates, id_to_node, next_map, roles, pending, vis, flow).
        card (fst ` set id_to_node - vis))
     <*mlex*> measure (\<lambda>(templates, id_to_node, next_map, roles, pending, vis, flow).
        length pending)")
  show "wf ((\<lambda>(templates, id_to_node, next_map, roles, pending, vis, flow).
        card (fst ` set id_to_node - vis))
     <*mlex*> measure (\<lambda>(templates, id_to_node, next_map, roles, pending, vis, flow).
        length pending))"
    by (simp add: wf_mlex)
next
  fix templates :: "(string \<times> template_entry list) list"
    and id_to_node :: "(string \<times> node) list"
    and next_map :: "(string \<times> (string \<times> string) list) list"
    and roles :: "(string \<times> string) list"
    and nid rest and vis :: "string set" and flow :: "step list"
  assume "nid \<in> vis"
  then show "((templates, id_to_node, next_map, roles, rest, vis, flow),
              (templates, id_to_node, next_map, roles, nid # rest, vis, flow))
        \<in> (\<lambda>(templates, id_to_node, next_map, roles, pending, vis, flow).
              card (fst ` set id_to_node - vis))
          <*mlex*> measure (\<lambda>(templates, id_to_node, next_map, roles, pending, vis, flow).
              length pending)"
    by (simp add: mlex_iff)
next
  fix templates :: "(string \<times> template_entry list) list"
    and id_to_node :: "(string \<times> node) list"
    and next_map :: "(string \<times> (string \<times> string) list) list"
    and roles :: "(string \<times> string) list"
    and nid rest and vis :: "string set" and flow :: "step list"
  assume "nid \<notin> vis" "map_of id_to_node nid = None"
  have "card (fst ` set id_to_node - insert nid vis) \<le> card (fst ` set id_to_node - vis)"
    by (rule card_mono) auto
  then show "((templates, id_to_node, next_map, roles, rest, insert nid vis, flow),
              (templates, id_to_node, next_map, roles, nid # rest, vis, flow))
        \<in> (\<lambda>(templates, id_to_node, next_map, roles, pending, vis, flow).
              card (fst ` set id_to_node - vis))
          <*mlex*> measure (\<lambda>(templates, id_to_node, next_map, roles, pending, vis, flow).
              length pending)"
    by (auto simp add: mlex_iff)
next
  fix templates :: "(string \<times> template_entry list) list"
    and id_to_node :: "(string \<times> node) list"
    and next_map :: "(string \<times> (string \<times> string) list) list"
    and roles :: "(string \<times> string) list"
    and nid rest and vis :: "string set" and flow :: "step list" and n
  assume "nid \<notin> vis" "map_of id_to_node nid = Some n"
  then have "nid \<in> fst ` set id_to_node - vis"
    by (auto dest!: map_of_SomeD intro: rev_image_eqI)
  then have "card (fst ` set id_to_node - insert nid vis) < card (fst ` set id_to_node - vis)"
    by (intro psubset_card_mono) auto
  then show "((templates, id_to_node, next_map, roles,
               map fst (dict_get next_map (node_id n) []) @ rest, insert nid vis,
               flow @ [make_step templates id_to_node next_map roles n]),
              (templates, id_to_node, next_map, roles, nid # rest, vis, flow))
        \<in> (\<lambda>(templates, id_to_node, next_map, roles, pending, vis, flow).
              card (fst ` set id_to_node - vis))
          <*mlex*> measure (\<lambda>(templates, id_to_node, next_map, roles, pending, vis, flow).
              length pending)"
    by (simp add: mlex_iff)
qed

definition interpret_flowchart ::
  "(string \<times> template_entry list) list \<Rightarrow> node list \<Rightarrow> edge list \<Rightarrow> (string \<times> string) list
     \<Rightarrow> string list \<Rightarrow> string \<Rightarrow> flowchart_data" where
  "interpret_flowchart templates nodes edges roles traversal_order diagram_type =
     (let id_to_node = build_id_to_node nodes;
          next_map = build_next_map edges
      in \<lparr>fd_diagram_type = diagram_type,
          fd_nodes = map (\<lambda>n. \<lparr>info_id = node_id n, info_label = strip (node_label n),
                                info_shape = strip (node_shape n),
                                info_role = dict_get roles (node_id n) ''Unknown''\<rparr>) nodes,
          fd_edges = map (\<lambda>e. \<lparr>info_source_id = edge_source e, info_target_id = edge_target e,
                                info_edge_label = strip (edge_label e)\<rparr>) edges,
          fd_execution_flow =
            snd (visit_nodes templates id_to_node next_map roles traversal_order {} [])\<rparr>)"



section \<open>Breadth-first order, as the specification means it\<close>

text \<open>
  The specification calls the traversal breadth-first from the start node over the
  directed adjacency built from the edges. The reference for that order is the textbook
  algorithm: a node is marked when it is discovered, every node enters the queue once, and
  the order is the order of discovery. \<open>discover\<close> is its inner loop over the neighbours
  of the node taken from the queue.
\<close>

fun discover :: "string list \<Rightarrow> string list \<times> string list \<Rightarrow> string list \<times> string list" where
  "discover [] (q, seen) = (q, seen)"
| "discover (v # vs) (q, seen) =
     (if v \<in> set seen then discover vs (q, seen)
      else discover vs (q @ [v], seen @ [v]))"

text \<open>The elements of a list in the order of their first occurrence.\<close>

definition firsts :: "'a list \<Rightarrow> 'a list" where
  "firsts xs = rev (remdups (rev xs))"

lemma firsts_Nil [simp]: "firsts [] = []"
  by (simp add: firsts_def)

lemma set_firsts [simp]: "set (firsts xs) = set xs"
  by (simp add: firsts_def)

lemma distinct_firsts [simp]: "distinct (firsts xs)"
  by (simp add: firsts_def)

lemma firsts_filter: "firsts (filter P xs) = filter P (firsts xs)"
  by (simp add: firsts_def rev_filter remdups_filter)

lemma remdups_append_filter:
  "remdups (xs @ ys) = remdups (filter (\<lambda>x. x \<notin> set ys) xs) @ remdups ys"
  by (induction xs) auto

lemma firsts_append:
  "firsts (xs @ ys) = firsts xs @ firsts (filter (\<lambda>y. y \<notin> set xs) ys)"
  by (simp add: firsts_def remdups_append_filter rev_filter)

lemma firsts_Cons: "firsts (x # xs) = x # firsts (filter (\<lambda>y. y \<noteq> x) xs)"
  using firsts_append [of "[x]" xs] by (simp add: firsts_def)

lemma discover_firsts:
  "discover vs (q, seen) =
     (q @ firsts (filter (\<lambda>v. v \<notin> set seen) vs),
      seen @ firsts (filter (\<lambda>v. v \<notin> set seen) vs))"
proof (induction vs arbitrary: q seen)
  case Nil
  then show ?case by simp
next
  case (Cons v vs)
  show ?case
  proof (cases "v \<in> set seen")
    case True
    then show ?thesis by (simp add: Cons.IH)
  next
    case False
    have "filter (\<lambda>y. y \<noteq> v) (filter (\<lambda>v. v \<notin> set seen) vs)
        = filter (\<lambda>w. w \<notin> set (seen @ [v])) vs"
      by (induction vs) auto
    with False show ?thesis
      by (simp add: Cons.IH firsts_Cons)
  qed
qed

definition textbook_measure ::
  "(string \<times> string list) list \<Rightarrow> string list \<times> string list \<Rightarrow> nat" where
  "textbook_measure adj s = length (fst s) + 2 * card (adj_targets adj - set (snd s))"

lemma discover_measure:
  assumes "set vs \<subseteq> adj_targets adj"
  shows "textbook_measure adj (discover vs (q, seen)) \<le> textbook_measure adj (q, seen)"
proof -
  let ?new = "firsts (filter (\<lambda>v. v \<notin> set seen) vs)"
  let ?T = "adj_targets adj"
  have new: "set ?new \<subseteq> ?T - set seen" "distinct ?new"
    using assms by auto
  have "?T - set (seen @ ?new) = (?T - set seen) - set ?new"
    by auto
  then have "card (?T - set (seen @ ?new)) = card (?T - set seen) - card (set ?new)"
    using new(1) by (simp add: card_Diff_subset)
  moreover have len: "card (set ?new) = length ?new"
    using new(2) by (rule distinct_card)
  moreover have "card (set ?new) \<le> card (?T - set seen)"
    using new(1) finite_adj_targets [of adj] by (intro card_mono) auto
  then have "length ?new \<le> card (?T - set seen)"
    unfolding len .
  ultimately show ?thesis
    by (simp add: textbook_measure_def discover_firsts)
qed

function textbook_loop ::
  "(string \<times> string list) list \<Rightarrow> string list \<times> string list \<Rightarrow> string list" where
  "textbook_loop adj (q, seen) =
     (case q of
        [] \<Rightarrow> seen
      | u # rest \<Rightarrow> textbook_loop adj (discover (dict_get adj u []) (rest, seen)))"
  by pat_completeness auto
termination
proof (relation "measure (\<lambda>(adj, s). textbook_measure adj s)")
  show "wf (measure (\<lambda>(adj, s). textbook_measure adj s))" by simp
next
  fix adj :: "(string \<times> string list) list" and q seen :: "string list" and u rest
  assume "q = u # rest"
  have "textbook_measure adj (discover (dict_get adj u []) (rest, seen))
      \<le> textbook_measure adj (rest, seen)"
    using dict_get_targets by (rule discover_measure)
  also have "\<dots> < textbook_measure adj (u # rest, seen)"
    by (simp add: textbook_measure_def)
  finally show "((adj, discover (dict_get adj u []) (rest, seen)), (adj, q, seen))
      \<in> measure (\<lambda>(adj, s). textbook_measure adj s)"
    using \<open>q = u # rest\<close> by simp
qed

declare textbook_loop.simps [simp del]

definition textbook_bfs :: "(string \<times> string list) list \<Rightarrow> string \<Rightarrow> string list" where
  "textbook_bfs adj start_node = textbook_loop adj ([start_node], [start_node])"

text \<open>The edge relation of a diagram, and the ids that a path of edges reaches.\<close>

definition edge_rel :: "edge list \<Rightarrow> (string \<times> string) set" where
  "edge_rel edges = (\<lambda>e. (edge_source e, edge_target e)) ` set edges"

definition reachable :: "edge list \<Rightarrow> string \<Rightarrow> string set" where
  "reachable edges start_node = (edge_rel edges)\<^sup>* `` {start_node}"

section \<open>The role vocabulary of the specification\<close>

text \<open>
  The roles the specification lists for each diagram type (its data model and the rule
  cascades of the role classifier), and the two sentinels for a node that no rule matches.
\<close>

definition role_vocabulary :: "string \<Rightarrow> string list" where
  "role_vocabulary diagram_type =
     (if diagram_type = ''Flowchart''
      then [''Start'', ''End'', ''Decision'', ''Loop'', ''Input'', ''Output'', ''Process'', ''Jump'']
      else if diagram_type = ''UML Class Diagram''
      then [''Interface'', ''Class'', ''Method'', ''Attribute'']
      else if diagram_type = ''UML Sequence Diagram''
      then [''Lifeline'', ''Message'', ''Actor'']
      else if diagram_type = ''ER Diagram''
      then [''Entity'', ''Attribute'', ''Relationship'']
      else if diagram_type = ''UML Activity Diagram''
      then [''Fork'', ''Join'', ''Action'', ''Swimlane'']
      else [])"

definition unknown_sentinels :: "string list" where
  "unknown_sentinels = [''Unknown'', ''Unknown UML Part'']"

section \<open>Example diagrams\<close>

text \<open>The two-node cycle A \<rightarrow> B, B \<rightarrow> A.\<close>

definition cycle_nodes :: "node list" where
  "cycle_nodes =
     [\<lparr>node_id = ''A'', node_label = ''A'', node_shape = ''rectangle'', node_metadata = []\<rparr>,
      \<lparr>node_id = ''B'', node_label = ''B'', node_shape = ''rectangle'', node_metadata = []\<rparr>]"

definition cycle_edges :: "edge list" where
  "cycle_edges =
     [\<lparr>edge_source = ''A'', edge_target = ''B'', edge_label = ''''\<rparr>,
      \<lparr>edge_source = ''B'', edge_target = ''A'', edge_label = ''''\<rparr>]"

text \<open>The four-node flowchart Start \<rightarrow> Input Value \<rightarrow> Print Result \<rightarrow> End.\<close>

definition scenario_nodes :: "node list" where
  "scenario_nodes =
     [\<lparr>node_id = ''n1'', node_label = ''Start'', node_shape = ''ellipse'', node_metadata = []\<rparr>,
      \<lparr>node_id = ''n2'', node_label = ''Input Value'', node_shape = ''parallelogram'',
       node_metadata = []\<rparr>,
      \<lparr>node_id = ''n3'', node_label = ''Print Result'', node_shape = ''parallelogram'',
       node_metadata = []\<rparr>,
      \<lparr>node_id = ''n4'', node_label = ''End'', node_shape = ''ellipse'', node_metadata = []\<rparr>]"

definition scenario_edges :: "edge list" where
  "scenario_edges =
     [\<lparr>edge_source = ''n1'', edge_target = ''n2'', edge_label = ''''\<rparr>,
      \<lparr>edge_source = ''n2'', edge_target = ''n3'', edge_label = ''''\<rparr>,
      \<lparr>edge_source = ''n3'', edge_target = ''n4'', edge_label = ''''\<rparr>]"

text \<open>The diagram with the single node \<^verbatim>\<open>UserAccount { id: int, name: str }\<close>.\<close>

definition account_nodes :: "node list" where
  "account_nodes =
     [\<lparr>node_id = ''n1'', node_label = ''UserAccount { id: int, name: str }'',
       node_shape = ''roundrectangle'', node_metadata = []\<rparr>]"

text \<open>A decision node whose only out-edge, labelled yes, leads to an id that is no node.\<close>

definition dangling_nodes :: "node list" where
  "dangling_nodes =
     [\<lparr>node_id = ''d'', node_label = ''Check?'', node_shape = ''diamond'', node_metadata = []\<rparr>]"

definition dangling_edges :: "edge list" where
  "dangling_edges = [\<lparr>edge_source = ''d'', edge_target = ''x'', edge_label = ''yes''\<rparr>]"

text \<open>A sequence-diagram node whose label has none of the sequence keywords.\<close>

definition plain_nodes :: "node list" where
  "plain_nodes =
     [\<lparr>node_id = ''p'', node_label = ''Customer'', node_shape = ''rectangle'',
       node_metadata = []\<rparr>]"

text \<open>
  A document whose only node has an explicit shape:
  \<^verbatim>\<open><graphml><graph><node id="n1"><data><y:ShapeNode><y:NodeLabel>Start</y:NodeLabel>
  <y:Shape type="ellipse"/></y:ShapeNode></data></node></graph></graphml>\<close>
\<close>

definition explicit_shape_doc :: xml where
  "explicit_shape_doc =
     Element ''graphml:graphml'' [] None
       [Element ''graphml:graph'' [] None
          [Element ''graphml:node'' [(''id'', ''n1'')] None
             [Element ''graphml:data'' [] None
                [Element ''y:ShapeNode'' [] None
                   [Element ''y:NodeLabel'' [] (Some ''Start'') [],
                    Element ''y:Shape'' [(''type'', ''ellipse'')] None []]]]]]"

text \<open>
  A document with a generic node followed by a node with an explicit shape and no
  generic-node element.
\<close>

definition generic_then_shape_doc :: xml where
  "generic_then_shape_doc =
     Element ''graphml:graphml'' [] None
       [Element ''graphml:graph'' [] None
          [Element ''graphml:node'' [(''id'', ''n1'')] None
             [Element ''graphml:data'' [] None
                [Element ''y:GenericNode'' [(''configuration'', ''com.yworks.flowchart.process'')]
                   None
                   [Element ''y:NodeLabel'' [] (Some ''Compute'') []]]],
           Element ''graphml:node'' [(''id'', ''n2'')] None
             [Element ''graphml:data'' [] None
                [Element ''y:ShapeNode'' [] None
                   [Element ''y:NodeLabel'' [] (Some ''End'') [],
                    Element ''y:Shape'' [(''type'', ''ellipse'')] None []]]]]]"

text \<open>A document whose node has no \<^verbatim>\<open>id\<close> attribute, and one with no graph element.\<close>

definition no_id_doc :: xml where
  "no_id_doc =
     Element ''graphml:graphml'' [] None
       [Element ''graphml:graph'' [] None [Element ''graphml:node'' [] None []]]"

definition no_graph_doc :: xml where
  "no_graph_doc = Element ''graphml:graphml'' [] None []"

text \<open>A decision node with the out-edges Yes \<rightarrow> a and Maybe \<rightarrow> b.\<close>

definition decision_nodes :: "node list" where
  "decision_nodes =
     [\<lparr>node_id = ''d'', node_label = ''Ready?'', node_shape = ''diamond'', node_metadata = []\<rparr>,
      \<lparr>node_id = ''a'', node_label = ''Go'', node_shape = ''rectangle'', node_metadata = []\<rparr>,
      \<lparr>node_id = ''b'', node_label = ''Wait'', node_shape = ''rectangle'', node_metadata = []\<rparr>]"

definition decision_edges :: "edge list" where
  "decision_edges =
     [\<lparr>edge_source = ''d'', edge_target = ''a'', edge_label = ''Yes ''\<rparr>,
      \<lparr>edge_source = ''d'', edge_target = ''b'', edge_label = ''Maybe''\<rparr>]"

text \<open>Two nodes with the same id, and a node whose id is the empty string.\<close>

definition twin_nodes :: "node list" where
  "twin_nodes =
     [\<lparr>node_id = ''a'', node_label = ''One'', node_shape = ''rectangle'', node_metadata = []\<rparr>,
      \<lparr>node_id = ''a'', node_label = ''Two'', node_shape = ''rectangle'', node_metadata = []\<rparr>]"

definition nameless_nodes :: "node list" where
  "nameless_nodes =
     [\<lparr>node_id = '''', node_label = ''Start'', node_shape = ''ellipse'', node_metadata = []\<rparr>]"

text \<open>Two nodes on a cycle and a third node that no edge reaches.\<close>

definition island_nodes :: "node list" where
  "island_nodes =
     [\<lparr>node_id = ''A'', node_label = ''Start'', node_shape = ''ellipse'', node_metadata = []\<rparr>,
      \<lparr>node_id = ''B'', node_label = ''Work'', node_shape = ''rectangle'', node_metadata = []\<rparr>,
      \<lparr>node_id = ''C'', node_label = ''Note'', node_shape = ''rectangle'', node_metadata = []\<rparr>]"

text \<open>
  A chain of \<open>n\<close> nodes with the ids n, ni, nii, ...: each node has one edge, to the next
  id, and the edge of the last node goes to an id that no node has.
\<close>

definition chain_id :: "nat \<Rightarrow> string" where
  "chain_id i = CHR ''n'' # replicate i CHR ''i''"



section \<open>Invariants\<close>

text \<open>
  What the visit keeps true: every step of the flow is the step of a node that the lookup
  table holds under the step's id, the ids of the steps are visited, and no two steps share
  an id.
\<close>

definition flow_ok ::
  "(string \<times> template_entry list) list \<Rightarrow> (string \<times> node) list
     \<Rightarrow> (string \<times> (string \<times> string) list) list \<Rightarrow> (string \<times> string) list
     \<Rightarrow> string set \<Rightarrow> step list \<Rightarrow> bool" where
  "flow_ok templates id_to_node next_map roles vis flow \<longleftrightarrow>
     distinct (map step_node_id flow)
     \<and> step_node_id ` set flow \<subseteq> vis
     \<and> (\<forall>s \<in> set flow. \<exists>n. map_of id_to_node (step_node_id s) = Some n
            \<and> s = make_step templates id_to_node next_map roles n)"

text \<open>The ids that the inner loop of the traversal appends to the queue.\<close>

definition enqueued :: "string list \<Rightarrow> (string \<Rightarrow> nat) \<Rightarrow> string list" where
  "enqueued ns vc = fst (enqueue_neighbors ns ([], vc))"

text \<open>
  What the traversal loop keeps true: the visited set is the set of the order list, the
  order list has no duplicate, an id with a positive visit count is in the order or in the
  queue, and every neighbour of an id of the order is in the order or in the queue.
\<close>

definition bfs_inv :: "(string \<times> string list) list \<Rightarrow> bfs_state \<Rightarrow> bool" where
  "bfs_inv adj st \<longleftrightarrow>
     visited st = set (order st)
     \<and> distinct (order st)
     \<and> (\<forall>v. 0 < visit_count st v \<longrightarrow> v \<in> set (order st) \<union> set (queue st))
     \<and> (\<forall>u \<in> set (order st). set (dict_get adj u []) \<subseteq> set (order st) \<union> set (queue st))"

section \<open>Dictionaries built by a loop\<close>

lemma dict_get_update:
  "dict_get (AList.update k v al) k' d = (if k' = k then v else dict_get al k' d)"
  by (simp add: dict_get_def update_conv')

lemma map_of_build_id_to_node:
  "map_of (build_id_to_node nodes) k = Some n \<Longrightarrow> n \<in> set nodes \<and> node_id n = k"
proof (induction nodes arbitrary: k n rule: rev_induct)
  case Nil
  then show ?case by (simp add: build_id_to_node_def)
next
  case (snoc x xs)
  have step: "build_id_to_node (xs @ [x]) = AList.update (node_id x) x (build_id_to_node xs)"
    by (simp add: build_id_to_node_def)
  show ?case
  proof (cases "k = node_id x")
    case True
    with snoc.prems show ?thesis by (simp add: step update_conv')
  next
    case False
    with snoc.prems have "map_of (build_id_to_node xs) k = Some n"
      by (simp add: step update_conv')
    from snoc.IH [OF this] show ?thesis by simp
  qed
qed

lemma dom_build_id_to_node:
  "map_of (build_id_to_node nodes) k \<noteq> None \<longleftrightarrow> k \<in> node_id ` set nodes"
proof (induction nodes rule: rev_induct)
  case Nil
  then show ?case by (simp add: build_id_to_node_def)
next
  case (snoc x xs)
  have step: "build_id_to_node (xs @ [x]) = AList.update (node_id x) x (build_id_to_node xs)"
    by (simp add: build_id_to_node_def)
  from snoc show ?case by (auto simp: step update_conv')
qed

lemma dict_get_build_next_map:
  "dict_get (build_next_map edges) k [] =
     map (\<lambda>e. (edge_target e, lower (strip (edge_label e))))
       (filter (\<lambda>e. edge_source e = k) edges)"
proof (induction edges arbitrary: k rule: rev_induct)
  case Nil
  then show ?case by (simp add: build_next_map_def dict_get_def)
next
  case (snoc e es)
  have step: "build_next_map (es @ [e]) =
      AList.update (edge_source e)
        (dict_get (build_next_map es) (edge_source e) []
           @ [(edge_target e, lower (strip (edge_label e)))])
        (build_next_map es)"
    by (simp add: build_next_map_def)
  from snoc show ?case by (simp add: step dict_get_update)
qed

lemma fst_build_adjacency_snoc:
  "fst (build_adjacency (es @ [e])) =
     AList.update (edge_source e)
       (dict_get (fst (build_adjacency es)) (edge_source e) [] @ [edge_target e])
       (fst (build_adjacency es))"
  by (simp add: build_adjacency_def split_beta)

lemma dict_get_build_adjacency:
  "dict_get (fst (build_adjacency edges)) k [] =
     map edge_target (filter (\<lambda>e. edge_source e = k) edges)"
proof (induction edges arbitrary: k rule: rev_induct)
  case Nil
  then show ?case by (simp add: build_adjacency_def dict_get_def)
next
  case (snoc e es)
  then show ?case by (simp add: fst_build_adjacency_snoc dict_get_update)
qed

section \<open>The traversal loop\<close>

lemma enqueue_neighbors_count_le:
  "(\<And>n. vc n \<le> 3) \<Longrightarrow> snd (enqueue_neighbors ns (q, vc)) n \<le> 3"
proof (induction ns arbitrary: q vc)
  case Nil
  then show ?case by simp
next
  case (Cons a ns)
  show ?case
  proof (cases "vc a < 3")
    case True
    have "\<And>m. (vc(a := vc a + 1)) m \<le> 3"
      using True Cons.prems by (simp add: Suc_leI)
    then have "snd (enqueue_neighbors ns (q @ [a], vc(a := vc a + 1))) n \<le> 3"
      by (rule Cons.IH)
    with True show ?thesis by simp
  next
    case False
    with Cons.IH [of vc q] Cons.prems show ?thesis by simp
  qed
qed

lemma bfs_step_count_le:
  assumes "\<And>n. visit_count st n \<le> 3"
  shows "visit_count (bfs_step adj st) n \<le> 3"
proof (cases "queue st")
  case Nil
  with assms show ?thesis by (simp add: bfs_step_def)
next
  case (Cons current rest)
  have "snd (enqueue_neighbors (dict_get adj current []) (rest, visit_count st)) n \<le> 3"
    using assms by (rule enqueue_neighbors_count_le)
  with Cons show ?thesis
    by (simp add: bfs_step_def split_beta)
qed

lemma bfs_loop_count_le:
  "(\<And>n. visit_count st n \<le> 3) \<Longrightarrow> visit_count (bfs_loop adj st) n \<le> 3"
proof (induction adj st rule: bfs_loop.induct)
  case (1 adj st)
  show ?case
  proof (cases "queue st = []")
    case True
    with "1.prems" show ?thesis by (simp add: bfs_loop.simps)
  next
    case False
    have "visit_count (bfs_loop adj (bfs_step adj st)) n \<le> 3"
      using False by (rule "1.IH") (rule bfs_step_count_le, rule "1.prems")
    with False show ?thesis by (simp add: bfs_loop.simps [of adj st])
  qed
qed

lemma bfs_loop_queue_empty: "queue (bfs_loop adj st) = []"
proof (induction adj st rule: bfs_loop.induct)
  case (1 adj st)
  then show ?case by (cases "queue st = []") (simp_all add: bfs_loop.simps [of adj st])
qed

lemma bfs_loop_iterations:
  "\<exists>k. bfs_loop adj st = (bfs_step adj ^^ k) st
      \<and> k + bfs_measure adj (bfs_loop adj st) = bfs_measure adj st"
proof (induction adj st rule: bfs_loop.induct)
  case (1 adj st)
  show ?case
  proof (cases "queue st = []")
    case True
    then have "bfs_loop adj st = (bfs_step adj ^^ 0) st
        \<and> 0 + bfs_measure adj (bfs_loop adj st) = bfs_measure adj st"
      by (simp add: bfs_loop.simps)
    then show ?thesis by blast
  next
    case False
    then have unfold: "bfs_loop adj st = bfs_loop adj (bfs_step adj st)"
      by (simp add: bfs_loop.simps [of adj st])
    from "1.IH" [OF False] obtain k where
      k: "bfs_loop adj (bfs_step adj st) = (bfs_step adj ^^ k) (bfs_step adj st)"
         "k + bfs_measure adj (bfs_loop adj (bfs_step adj st)) = bfs_measure adj (bfs_step adj st)"
      by blast
    have "bfs_loop adj st = (bfs_step adj ^^ Suc k) st"
      using k(1) unfold by (simp add: funpow_swap1)
    moreover have "Suc k + bfs_measure adj (bfs_loop adj st) = bfs_measure adj st"
      using k(2) unfold bfs_step_measure [OF False, of adj] by simp
    ultimately show ?thesis by blast
  qed
qed

lemma bfs_measure_initial:
  "bfs_measure adj (initial_state s) = 1 + 3 * card (adj_targets adj)"
  by (simp add: bfs_measure_def initial_state_def)

lemma cycle_adjacency:
  "fst (build_adjacency cycle_edges) = [(''A'', [''B'']), (''B'', [''A''])]"
  by (simp add: build_adjacency_def cycle_edges_def dict_get_def)

lemma cycle_start: "find_start_node cycle_nodes = Some ''A''"
  by (simp add: find_start_node_def cycle_nodes_def lower_def lower_char_def)

lemma cycle_loop_order:
  "order (bfs_loop [(''A'', [''B'']), (''B'', [''A''])] (initial_state ''A'')) = [''A'', ''B'']"
  by (simp add: bfs_loop.simps bfs_step_def initial_state_def dict_get_def)

lemma cycle_loop_count_A:
  "visit_count (bfs_loop [(''A'', [''B'']), (''B'', [''A''])] (initial_state ''A'')) ''A'' = 3"
  by (simp add: bfs_loop.simps bfs_step_def initial_state_def dict_get_def)

lemma cycle_loop_count_B:
  "visit_count (bfs_loop [(''A'', [''B'']), (''B'', [''A''])] (initial_state ''A'')) ''B'' = 3"
  by (simp add: bfs_loop.simps bfs_step_def initial_state_def dict_get_def)

lemma cycle_loop_iterations:
  "queue ((bfs_step [(''A'', [''B'']), (''B'', [''A''])] ^^ 7) (initial_state ''A'')) = []"
  by (simp add: eval_nat_numeral bfs_step_def initial_state_def dict_get_def)

lemma cycle_loop_last_iteration:
  "queue ((bfs_step [(''A'', [''B'']), (''B'', [''A''])] ^^ 6) (initial_state ''A'')) = [''A'']"
  by (simp add: eval_nat_numeral bfs_step_def initial_state_def dict_get_def)

section \<open>The steps of the interpreter\<close>

lemma step_node_id_make_step [simp]:
  "step_node_id (make_step templates id_to_node next_map roles n) = node_id n"
  by (simp add: make_step_def Let_def)

lemma step_role_make_step [simp]:
  "step_role (make_step templates id_to_node next_map roles n)
     = dict_get roles (node_id n) ''Unknown''"
  by (simp add: make_step_def Let_def)

lemma step_next_id_make_step:
  "step_next_id (make_step templates id_to_node next_map roles n) =
     (if length (dict_get next_map (node_id n) []) = 1
         \<and> lower (dict_get roles (node_id n) ''Unknown'') \<notin> set [''decision'', ''end'']
      then Some (fst (dict_get next_map (node_id n) [] ! 0)) else None)"
  by (simp add: make_step_def Let_def)

lemma step_branches_make_step:
  "step_branches (make_step templates id_to_node next_map roles n) =
     (if lower (dict_get roles (node_id n) ''Unknown'') = ''decision''
      then Some (make_branches id_to_node (dict_get next_map (node_id n) [])) else None)"
  by (simp add: make_step_def Let_def)

lemma length_make_branches:
  "length (make_branches id_to_node outs)
     = length (filter (\<lambda>out. map_of id_to_node (fst out) \<noteq> None) outs)"
  by (induction id_to_node outs rule: make_branches.induct) (auto split: option.splits)

lemma make_branches_condition:
  "b \<in> set (make_branches id_to_node outs) \<Longrightarrow>
     branch_condition b = condition_of (branch_condition_label b)
     \<and> (branch_target_node_id b, branch_condition_label b) \<in> set outs
     \<and> map_of id_to_node (branch_target_node_id b) \<noteq> None"
  by (induction id_to_node outs rule: make_branches.induct) (auto split: option.splits)

lemma condition_of_nonempty:
  "condition_of raw \<noteq> '''' \<longleftrightarrow> raw \<in> set [''yes'', ''true'', ''y'', ''no'', ''false'', ''n'']"
  by (auto simp: condition_of_def)

lemma condition_of_values:
  "condition_of raw =
     (if raw \<in> set [''yes'', ''true'', ''y''] then ''yes''
      else if raw \<in> set [''no'', ''false'', ''n''] then ''no'' else '''')"
  by (simp add: condition_of_def)

lemma visit_nodes_flow_ok:
  assumes "flow_ok templates id_to_node next_map roles vis flow"
    and "\<And>k n. map_of id_to_node k = Some n \<Longrightarrow> node_id n = k"
  shows "flow_ok templates id_to_node next_map roles
           (fst (visit_nodes templates id_to_node next_map roles pending vis flow))
           (snd (visit_nodes templates id_to_node next_map roles pending vis flow))"
  using assms
proof (induction templates id_to_node next_map roles pending vis flow rule: visit_nodes.induct)
  case (1 templates id_to_node next_map roles vis flow)
  then show ?case by simp
next
  case (2 templates id_to_node next_map roles nid rest vis flow)
  show ?case
  proof (cases "nid \<in> vis")
    case True
    with 2 show ?thesis by simp
  next
    case False
    show ?thesis
    proof (cases "map_of id_to_node nid")
      case None
      have "flow_ok templates id_to_node next_map roles (insert nid vis) flow"
        using "2.prems"(1) by (auto simp: flow_ok_def)
      with 2 False None show ?thesis by simp
    next
      case (Some n)
      have nid: "node_id n = nid"
        using Some "2.prems"(2) by blast
      have "flow_ok templates id_to_node next_map roles (insert nid vis)
              (flow @ [make_step templates id_to_node next_map roles n])"
        using "2.prems"(1) False Some nid by (auto simp: flow_ok_def)
      with 2 False Some show ?thesis by simp
    qed
  qed
qed


lemma interpret_flowchart_flow_ok:
  "flow_ok templates (build_id_to_node nodes) (build_next_map edges) roles
     (fst (visit_nodes templates (build_id_to_node nodes) (build_next_map edges) roles
             traversal_order {} []))
     (fd_execution_flow
        (interpret_flowchart templates nodes edges roles traversal_order diagram_type))"
proof -
  have "flow_ok templates (build_id_to_node nodes) (build_next_map edges) roles {} []"
    by (simp add: flow_ok_def)
  then have "flow_ok templates (build_id_to_node nodes) (build_next_map edges) roles
     (fst (visit_nodes templates (build_id_to_node nodes) (build_next_map edges) roles
             traversal_order {} []))
     (snd (visit_nodes templates (build_id_to_node nodes) (build_next_map edges) roles
             traversal_order {} []))"
    by (rule visit_nodes_flow_ok) (simp add: map_of_build_id_to_node)
  then show ?thesis
    by (simp add: interpret_flowchart_def Let_def)
qed

lemma execution_flow_step:
  assumes "s \<in> set (fd_execution_flow
        (interpret_flowchart templates nodes edges roles traversal_order diagram_type))"
  shows "\<exists>n \<in> set nodes. node_id n = step_node_id s
           \<and> s = make_step templates (build_id_to_node nodes) (build_next_map edges) roles n"
proof -
  from interpret_flowchart_flow_ok [of templates nodes edges roles traversal_order diagram_type]
    assms
  obtain n where n: "map_of (build_id_to_node nodes) (step_node_id s) = Some n"
    "s = make_step templates (build_id_to_node nodes) (build_next_map edges) roles n"
    unfolding flow_ok_def by blast
  from map_of_build_id_to_node [OF n(1)] n(2) show ?thesis by blast
qed

lemma dom_build_id_to_node_ex:
  "(\<exists>n. map_of (build_id_to_node nodes) k = Some n) \<longleftrightarrow> k \<in> node_id ` set nodes"
  using dom_build_id_to_node [of nodes k] by auto

lemma scenario_roles:
  "classify_node_roles scenario_nodes ''Flowchart'' (Some scenario_edges)
     = [(''n1'', ''Start''), (''n2'', ''Input''), (''n3'', ''Input''), (''n4'', ''Start'')]"
  by code_simp

lemma scenario_flow:
  "fd_execution_flow
     (interpret_flowchart [] scenario_nodes scenario_edges
        [(''n1'', ''Start''), (''n2'', ''Input''), (''n3'', ''Input''), (''n4'', ''Start'')]
        [''n1'', ''n2'', ''n3'', ''n4''] ''Flowchart'')
   = [\<lparr>step_node_id = ''n1'', step_label = ''Start'', step_role = ''Start'',
        step_type = ''ellipse'', step_logic_template = None, step_flow_type = ''start'',
        step_branches = None, step_next_id = Some ''n2''\<rparr>,
      \<lparr>step_node_id = ''n2'', step_label = ''Input Value'', step_role = ''Input'',
        step_type = ''parallelogram'', step_logic_template = None, step_flow_type = ''input'',
        step_branches = None, step_next_id = Some ''n3''\<rparr>,
      \<lparr>step_node_id = ''n3'', step_label = ''Print Result'', step_role = ''Input'',
        step_type = ''parallelogram'', step_logic_template = None, step_flow_type = ''input'',
        step_branches = None, step_next_id = Some ''n4''\<rparr>,
      \<lparr>step_node_id = ''n4'', step_label = ''End'', step_role = ''Start'',
        step_type = ''ellipse'', step_logic_template = None, step_flow_type = ''start'',
        step_branches = None, step_next_id = None\<rparr>]"
  by code_simp

text \<open>A decision node with a yes edge and a no edge to two nodes of the diagram.\<close>

lemma decision_flow:
  "fd_execution_flow
     (interpret_flowchart [] decision_nodes decision_edges
        [(''d'', ''Decision''), (''a'', ''Process''), (''b'', ''Process'')]
        [''d'', ''a'', ''b''] ''Flowchart'')
   = [\<lparr>step_node_id = ''d'', step_label = ''Ready?'', step_role = ''Decision'',
        step_type = ''diamond'', step_logic_template = None, step_flow_type = ''decision'',
        step_branches =
          Some [\<lparr>branch_condition_label = ''yes'', branch_condition = ''yes'',
                  branch_target_node_id = ''a'', branch_target_label = ''Go''\<rparr>,
                \<lparr>branch_condition_label = ''maybe'', branch_condition = '''',
                  branch_target_node_id = ''b'', branch_target_label = ''Wait''\<rparr>],
        step_next_id = None\<rparr>,
      \<lparr>step_node_id = ''a'', step_label = ''Go'', step_role = ''Process'',
        step_type = ''rectangle'', step_logic_template = None, step_flow_type = ''process'',
        step_branches = None, step_next_id = None\<rparr>,
      \<lparr>step_node_id = ''b'', step_label = ''Wait'', step_role = ''Process'',
        step_type = ''rectangle'', step_logic_template = None, step_flow_type = ''process'',
        step_branches = None, step_next_id = None\<rparr>]"
  by code_simp

lemma dangling_flow:
  "fd_execution_flow
     (interpret_flowchart [] dangling_nodes dangling_edges [(''d'', ''Decision'')]
        [''d''] ''Flowchart'')
   = [\<lparr>step_node_id = ''d'', step_label = ''Check?'', step_role = ''Decision'',
        step_type = ''diamond'', step_logic_template = None, step_flow_type = ''decision'',
        step_branches = Some [], step_next_id = None\<rparr>]"
  by code_simp

section \<open>C1: the traversal order\<close>

subsection \<open>The inner loop\<close>

lemma enqueue_neighbors_fst:
  "fst (enqueue_neighbors ns (q, vc)) = q @ enqueued ns vc"
proof (induction ns arbitrary: q vc)
  case Nil
  then show ?case by (simp add: enqueued_def)
next
  case (Cons n ns)
  show ?case
  proof (cases "vc n < 3")
    case True
    have "fst (enqueue_neighbors ns (q @ [n], vc(n := vc n + 1)))
        = (q @ [n]) @ enqueued ns (vc(n := vc n + 1))"
      by (rule Cons.IH)
    moreover have "fst (enqueue_neighbors ns ([n], vc(n := vc n + 1)))
        = [n] @ enqueued ns (vc(n := vc n + 1))"
      by (rule Cons.IH)
    ultimately show ?thesis
      using True by (simp add: enqueued_def)
  next
    case False
    with Cons.IH [of q vc] show ?thesis by (simp add: enqueued_def)
  qed
qed

lemma enqueued_Nil [simp]: "enqueued [] vc = []"
  by (simp add: enqueued_def)

lemma enqueued_Cons_less:
  "vc n < 3 \<Longrightarrow> enqueued (n # ns) vc = n # enqueued ns (vc(n := vc n + 1))"
  using enqueue_neighbors_fst [of ns "[n]" "vc(n := vc n + 1)"]
  by (simp add: enqueued_def)

lemma enqueued_Cons_full:
  "\<not> vc n < 3 \<Longrightarrow> enqueued (n # ns) vc = enqueued ns vc"
  by (simp add: enqueued_def)

lemma enqueued_subset: "set (enqueued ns vc) \<subseteq> set ns"
proof (induction ns arbitrary: vc)
  case Nil
  then show ?case by simp
next
  case (Cons n ns)
  show ?case
  proof (cases "vc n < 3")
    case True
    define vc' where "vc' = vc(n := vc n + 1)"
    have unfold: "enqueued (n # ns) vc = n # enqueued ns vc'"
      unfolding vc'_def using True by (rule enqueued_Cons_less)
    from Cons.IH [of vc'] show ?thesis
      unfolding unfold by auto
  next
    case False
    have unfold: "enqueued (n # ns) vc = enqueued ns vc"
      using False by (rule enqueued_Cons_full)
    from Cons.IH [of vc] show ?thesis
      unfolding unfold by auto
  qed
qed

lemma enqueued_covers: "v \<in> set ns \<Longrightarrow> v \<in> set (enqueued ns vc) \<or> 3 \<le> vc v"
proof (induction ns arbitrary: vc)
  case Nil
  then show ?case by simp
next
  case (Cons n ns)
  show ?case
  proof (cases "vc n < 3")
    case True
    define vc' where "vc' = vc(n := vc n + 1)"
    have unfold: "enqueued (n # ns) vc = n # enqueued ns vc'"
      unfolding vc'_def using True by (rule enqueued_Cons_less)
    show ?thesis
    proof (cases "v = n")
      case same: True
      then show ?thesis unfolding unfold by simp
    next
      case other: False
      with Cons.prems have "v \<in> set ns" by simp
      from Cons.IH [OF this, of vc'] have "v \<in> set (enqueued ns vc') \<or> 3 \<le> vc' v" .
      moreover have "vc' v = vc v"
        using other by (simp add: vc'_def)
      ultimately show ?thesis unfolding unfold by auto
    qed
  next
    case False
    have unfold: "enqueued (n # ns) vc = enqueued ns vc"
      using False by (rule enqueued_Cons_full)
    show ?thesis
    proof (cases "v = n")
      case same: True
      with False show ?thesis by simp
    next
      case other: False
      with Cons.prems have "v \<in> set ns" by simp
      from Cons.IH [OF this, of vc] show ?thesis unfolding unfold .
    qed
  qed
qed

lemma enqueue_neighbors_count_pos:
  "0 < snd (enqueue_neighbors ns (q, vc)) v \<Longrightarrow> 0 < vc v \<or> v \<in> set (enqueued ns vc)"
proof (induction ns arbitrary: q vc)
  case Nil
  then show ?case by simp
next
  case (Cons n ns)
  show ?case
  proof (cases "vc n < 3")
    case True
    define vc' where "vc' = vc(n := vc n + 1)"
    have unfold: "enqueued (n # ns) vc = n # enqueued ns vc'"
      unfolding vc'_def using True by (rule enqueued_Cons_less)
    have "enqueue_neighbors (n # ns) (q, vc) = enqueue_neighbors ns (q @ [n], vc')"
      using True by (simp add: vc'_def)
    with Cons.prems have "0 < snd (enqueue_neighbors ns (q @ [n], vc')) v"
      by simp
    from Cons.IH [OF this] have "0 < vc' v \<or> v \<in> set (enqueued ns vc')" .
    moreover have "v \<noteq> n \<Longrightarrow> vc' v = vc v"
      by (simp add: vc'_def)
    ultimately show ?thesis
      unfolding unfold by (cases "v = n") auto
  next
    case False
    with Cons.prems have "0 < snd (enqueue_neighbors ns (q, vc)) v"
      by simp
    from Cons.IH [OF this] show ?thesis
      using False by (simp add: enqueued_Cons_full)
  qed
qed

lemma enqueued_firsts:
  "(\<And>v. v \<in> set ns \<Longrightarrow> P v \<Longrightarrow> vc v < 3) \<Longrightarrow>
     firsts (filter P (enqueued ns vc)) = firsts (filter P ns)"
proof (induction ns arbitrary: vc P)
  case Nil
  then show ?case by simp
next
  case (Cons n ns)
  show ?case
  proof (cases "vc n < 3")
    case True
    define vc' where "vc' = vc(n := vc n + 1)"
    have unfold: "enqueued (n # ns) vc = n # enqueued ns vc'"
      unfolding vc'_def using True by (rule enqueued_Cons_less)
    have same: "v \<noteq> n \<Longrightarrow> vc' v = vc v" for v
      by (simp add: vc'_def)
    show ?thesis
    proof (cases "P n")
      case Pn: True
      have "firsts (filter (\<lambda>v. P v \<and> v \<noteq> n) (enqueued ns vc'))
          = firsts (filter (\<lambda>v. P v \<and> v \<noteq> n) ns)"
      proof (rule Cons.IH)
        fix v
        assume "v \<in> set ns" "P v \<and> v \<noteq> n"
        with Cons.prems [of v] same [of v] show "vc' v < 3" by simp
      qed
      then show ?thesis
        unfolding unfold using Pn by (simp add: firsts_Cons)
    next
      case notP: False
      have "firsts (filter P (enqueued ns vc')) = firsts (filter P ns)"
      proof (rule Cons.IH)
        fix v
        assume v: "v \<in> set ns" "P v"
        with notP have "v \<noteq> n" by auto
        with Cons.prems [of v] v same [of v] show "vc' v < 3" by simp
      qed
      then show ?thesis
        unfolding unfold using notP by simp
    qed
  next
    case False
    then have notP: "\<not> P n"
      using Cons.prems [of n] by auto
    have "firsts (filter P (enqueued ns vc)) = firsts (filter P ns)"
      using Cons.prems by (intro Cons.IH) auto
    then show ?thesis
      using False notP by (simp add: enqueued_Cons_full)
  qed
qed

lemma filter_not_in_filter:
  "filter (\<lambda>y. y \<notin> set (filter Q rest)) (filter Q xs)
     = filter (\<lambda>v. Q v \<and> v \<notin> set rest) xs"
  by (induction xs) auto

subsection \<open>One iteration\<close>

lemma bfs_step_queue:
  "queue st = cur # rest \<Longrightarrow>
     queue (bfs_step adj st) = rest @ enqueued (dict_get adj cur []) (visit_count st)"
  using enqueue_neighbors_fst [of "dict_get adj cur []" rest "visit_count st"]
  by (simp add: bfs_step_def split_beta)

lemma bfs_step_order:
  "queue st = cur # rest \<Longrightarrow>
     order (bfs_step adj st) = (if cur \<in> visited st then order st else order st @ [cur])"
  by (simp add: bfs_step_def split_beta)

lemma bfs_step_visited:
  "queue st = cur # rest \<Longrightarrow> visited (bfs_step adj st) = insert cur (visited st)"
  by (auto simp: bfs_step_def split_beta)

lemma bfs_step_visit_count:
  "queue st = cur # rest \<Longrightarrow>
     visit_count (bfs_step adj st)
       = snd (enqueue_neighbors (dict_get adj cur []) (rest, visit_count st))"
  by (simp add: bfs_step_def split_beta)

lemma bfs_step_inv:
  assumes inv: "bfs_inv adj st" and q: "queue st = cur # rest"
  shows "bfs_inv adj (bfs_step adj st)"
proof -
  let ?ns = "dict_get adj cur []"
  let ?enq = "enqueued ?ns (visit_count st)"
  let ?st = "bfs_step adj st"
  from inv have vis: "visited st = set (order st)" and dist: "distinct (order st)"
    and pos: "\<And>v. 0 < visit_count st v \<Longrightarrow> v \<in> set (order st) \<union> set (queue st)"
    and closed: "\<And>u. u \<in> set (order st)
          \<Longrightarrow> set (dict_get adj u []) \<subseteq> set (order st) \<union> set (queue st)"
    unfolding bfs_inv_def by blast+
  have order': "set (order ?st) = insert cur (set (order st))"
    using vis by (auto simp: bfs_step_order [OF q])
  have queue': "queue ?st = rest @ ?enq"
    by (rule bfs_step_queue [OF q])
  have old: "set (order st) \<union> set (queue st) \<subseteq> set (order ?st) \<union> set (queue ?st)"
    unfolding order' queue' q by auto
  have 1: "visited ?st = set (order ?st)"
    unfolding order' bfs_step_visited [OF q] vis ..
  have 2: "distinct (order ?st)"
    using dist vis by (simp add: bfs_step_order [OF q])
  have 3: "\<forall>v. 0 < visit_count ?st v \<longrightarrow> v \<in> set (order ?st) \<union> set (queue ?st)"
  proof (intro allI impI)
    fix v
    assume "0 < visit_count ?st v"
    then have "0 < visit_count st v \<or> v \<in> set ?enq"
      unfolding bfs_step_visit_count [OF q] by (rule enqueue_neighbors_count_pos)
    then show "v \<in> set (order ?st) \<union> set (queue ?st)"
      using pos [of v] old queue' by auto
  qed
  have 4: "\<forall>u \<in> set (order ?st). set (dict_get adj u []) \<subseteq> set (order ?st) \<union> set (queue ?st)"
  proof
    fix u
    assume "u \<in> set (order ?st)"
    then consider "u \<in> set (order st)" | "u = cur"
      unfolding order' by auto
    then show "set (dict_get adj u []) \<subseteq> set (order ?st) \<union> set (queue ?st)"
    proof cases
      case 1
      from closed [OF this] old show ?thesis by blast
    next
      case 2
      show ?thesis
      proof
        fix v
        assume "v \<in> set (dict_get adj u [])"
        then have "v \<in> set ?ns" using 2 by simp
        then have "v \<in> set ?enq \<or> 3 \<le> visit_count st v"
          by (rule enqueued_covers)
        then show "v \<in> set (order ?st) \<union> set (queue ?st)"
          using pos [of v] old queue' by auto
      qed
    qed
  qed
  from 1 2 3 4 show ?thesis
    unfolding bfs_inv_def by blast
qed

lemma bfs_inv_initial: "bfs_inv adj (initial_state start_node)"
  by (simp add: bfs_inv_def initial_state_def)

subsection \<open>The loop and the textbook algorithm\<close>

lemma bfs_loop_refines:
  assumes "bfs_inv adj st"
  shows "order (bfs_loop adj st) =
     textbook_loop adj
       (firsts (filter (\<lambda>v. v \<notin> set (order st)) (queue st)),
        order st @ firsts (filter (\<lambda>v. v \<notin> set (order st)) (queue st)))"
  using assms
proof (induction adj st rule: bfs_loop.induct)
  case (1 adj st)
  show ?case
  proof (cases "queue st")
    case Nil
    then show ?thesis
      by (simp add: bfs_loop.simps [of adj st] textbook_loop.simps)
  next
    case (Cons cur rest)
    let ?ns = "dict_get adj cur []"
    let ?enq = "enqueued ?ns (visit_count st)"
    let ?st = "bfs_step adj st"
    from Cons have ne: "queue st \<noteq> []" by simp
    have inv': "bfs_inv adj ?st"
      using "1.prems" Cons by (rule bfs_step_inv)
    from "1.prems" have vis: "visited st = set (order st)"
      and pos: "\<And>v. 0 < visit_count st v \<Longrightarrow> v \<in> set (order st) \<union> set (queue st)"
      and closed: "\<And>u. u \<in> set (order st)
          \<Longrightarrow> set (dict_get adj u []) \<subseteq> set (order st) \<union> set (queue st)"
      unfolding bfs_inv_def by blast+
    have IH: "order (bfs_loop adj ?st) =
        textbook_loop adj
          (firsts (filter (\<lambda>v. v \<notin> set (order ?st)) (queue ?st)),
           order ?st @ firsts (filter (\<lambda>v. v \<notin> set (order ?st)) (queue ?st)))"
      using ne inv' by (rule "1.IH")
    have unfold: "bfs_loop adj st = bfs_loop adj ?st"
      using ne by (simp add: bfs_loop.simps [of adj st])
    have queue': "queue ?st = rest @ ?enq"
      by (rule bfs_step_queue [OF Cons])
    show ?thesis
    proof (cases "cur \<in> set (order st)")
      case True
      then have order': "order ?st = order st"
        using vis by (simp add: bfs_step_order [OF Cons])
      have "set ?enq \<subseteq> set (order st) \<union> set rest"
        using enqueued_subset [of ?ns "visit_count st"] closed [OF True] True Cons by auto
      then have none: "filter (\<lambda>y. y \<notin> set (filter (\<lambda>v. v \<notin> set (order st)) rest))
          (filter (\<lambda>v. v \<notin> set (order st)) ?enq) = []"
        by (auto simp: filter_empty_conv)
      have "firsts (filter (\<lambda>v. v \<notin> set (order st)) (rest @ ?enq))
          = firsts (filter (\<lambda>v. v \<notin> set (order st)) rest
              @ filter (\<lambda>v. v \<notin> set (order st)) ?enq)"
        by simp
      also have "\<dots> = firsts (filter (\<lambda>v. v \<notin> set (order st)) rest)
          @ firsts (filter (\<lambda>y. y \<notin> set (filter (\<lambda>v. v \<notin> set (order st)) rest))
              (filter (\<lambda>v. v \<notin> set (order st)) ?enq))"
        by (rule firsts_append)
      also have "\<dots> = firsts (filter (\<lambda>v. v \<notin> set (order st)) rest)"
        by (simp only: none firsts_Nil append_Nil2)
      finally have "firsts (filter (\<lambda>v. v \<notin> set (order st)) (rest @ ?enq))
          = firsts (filter (\<lambda>v. v \<notin> set (order st)) rest)" .
      moreover have "firsts (filter (\<lambda>v. v \<notin> set (order st)) (cur # rest))
          = firsts (filter (\<lambda>v. v \<notin> set (order st)) rest)"
        using True by simp
      ultimately show ?thesis
        unfolding unfold IH order' queue' Cons by simp
    next
      case False
      then have order': "order ?st = order st @ [cur]"
        using vis by (simp add: bfs_step_order [OF Cons])
      let ?A = "filter (\<lambda>v. v \<notin> set (order st @ [cur])) rest"
      let ?seen = "order st @ cur # firsts ?A"
      have seen: "set ?seen = set (order st) \<union> set (queue st)"
        unfolding Cons by auto
      have head: "firsts (filter (\<lambda>v. v \<notin> set (order st)) (cur # rest)) = cur # firsts ?A"
        using False by (simp add: firsts_Cons conj_commute)
      have new: "firsts (filter (\<lambda>v. v \<notin> set ?seen) ?enq)
          = firsts (filter (\<lambda>v. v \<notin> set ?seen) ?ns)"
      proof (rule enqueued_firsts)
        fix v
        assume "v \<in> set ?ns" "v \<notin> set ?seen"
        then have "\<not> 0 < visit_count st v"
          using pos [of v] unfolding seen by blast
        then show "visit_count st v < 3" by simp
      qed
      have "filter (\<lambda>v. v \<notin> set (order st @ [cur]) \<and> v \<notin> set rest) ?enq
          = filter (\<lambda>v. v \<notin> set ?seen) ?enq"
        by (rule filter_cong) auto
      then have both: "filter (\<lambda>y. y \<notin> set ?A) (filter (\<lambda>v. v \<notin> set (order st @ [cur])) ?enq)
          = filter (\<lambda>v. v \<notin> set ?seen) ?enq"
        unfolding filter_not_in_filter .
      have "firsts (filter (\<lambda>v. v \<notin> set (order st @ [cur])) (rest @ ?enq))
          = firsts (?A @ filter (\<lambda>v. v \<notin> set (order st @ [cur])) ?enq)"
        by simp
      also have "\<dots> = firsts ?A
          @ firsts (filter (\<lambda>y. y \<notin> set ?A) (filter (\<lambda>v. v \<notin> set (order st @ [cur])) ?enq))"
        by (rule firsts_append)
      also have "\<dots> = firsts ?A @ firsts (filter (\<lambda>v. v \<notin> set ?seen) ?ns)"
        by (simp only: both new)
      finally have tail: "firsts (filter (\<lambda>v. v \<notin> set (order st @ [cur])) (rest @ ?enq))
          = firsts ?A @ firsts (filter (\<lambda>v. v \<notin> set ?seen) ?ns)" .
      let ?new = "firsts (filter (\<lambda>v. v \<notin> set ?seen) ?ns)"
      have step: "textbook_loop adj (cur # firsts ?A, ?seen)
          = textbook_loop adj (firsts ?A @ ?new, ?seen @ ?new)"
        by (subst textbook_loop.simps) (simp only: list.case discover_firsts)
      have lhs: "order (bfs_loop adj st) = textbook_loop adj (firsts ?A @ ?new, ?seen @ ?new)"
        unfolding unfold IH order' queue' tail
        by (simp only: append_assoc append_Cons append_Nil)
      have rhs: "textbook_loop adj
          (firsts (filter (\<lambda>v. v \<notin> set (order st)) (queue st)),
           order st @ firsts (filter (\<lambda>v. v \<notin> set (order st)) (queue st)))
          = textbook_loop adj (cur # firsts ?A, ?seen)"
        unfolding Cons head ..
      show ?thesis
        unfolding lhs rhs step ..
    qed
  qed
qed

lemma bfs_loop_textbook:
  "order (bfs_loop adj (initial_state start_node)) = textbook_bfs adj start_node"
  using bfs_loop_refines [OF bfs_inv_initial, of adj start_node]
  by (simp add: initial_state_def textbook_bfs_def firsts_Cons)

subsection \<open>What the loop reaches\<close>

lemma bfs_step_grows:
  assumes "bfs_inv adj st" and q: "queue st = cur # rest"
  shows "set (order st) \<union> set (queue st)
           \<subseteq> set (order (bfs_step adj st)) \<union> set (queue (bfs_step adj st))"
proof -
  from assms(1) have "visited st = set (order st)"
    unfolding bfs_inv_def by blast
  then have "set (order (bfs_step adj st)) = insert cur (set (order st))"
    by (auto simp: bfs_step_order [OF q])
  then show ?thesis
    unfolding bfs_step_queue [OF q] q by auto
qed

lemma bfs_step_within:
  assumes closed: "\<And>u. u \<in> R \<Longrightarrow> set (dict_get adj u []) \<subseteq> R"
    and inside: "set (order st) \<union> set (queue st) \<subseteq> R"
    and q: "queue st = cur # rest"
  shows "set (order (bfs_step adj st)) \<union> set (queue (bfs_step adj st)) \<subseteq> R"
proof -
  have cur: "cur \<in> R"
    using inside q by auto
  have "set (enqueued (dict_get adj cur []) (visit_count st)) \<subseteq> R"
    using enqueued_subset [of "dict_get adj cur []" "visit_count st"] closed [OF cur] by blast
  moreover have "set (order (bfs_step adj st)) \<subseteq> insert cur (set (order st))"
    by (auto simp: bfs_step_order [OF q] split: if_splits)
  ultimately show ?thesis
    unfolding bfs_step_queue [OF q] using inside cur q by auto
qed

lemma bfs_loop_inv: "bfs_inv adj st \<Longrightarrow> bfs_inv adj (bfs_loop adj st)"
proof (induction adj st rule: bfs_loop.induct)
  case (1 adj st)
  show ?case
  proof (cases "queue st")
    case Nil
    with "1.prems" show ?thesis by (simp add: bfs_loop.simps [of adj st])
  next
    case (Cons cur rest)
    then have ne: "queue st \<noteq> []" by simp
    have "bfs_inv adj (bfs_step adj st)"
      using "1.prems" Cons by (rule bfs_step_inv)
    with "1.IH" [OF ne] ne show ?thesis
      by (simp add: bfs_loop.simps [of adj st])
  qed
qed

lemma bfs_loop_grows:
  "bfs_inv adj st \<Longrightarrow> set (order st) \<union> set (queue st) \<subseteq> set (order (bfs_loop adj st))"
proof (induction adj st rule: bfs_loop.induct)
  case (1 adj st)
  show ?case
  proof (cases "queue st")
    case Nil
    then show ?thesis by (simp add: bfs_loop.simps [of adj st])
  next
    case (Cons cur rest)
    then have ne: "queue st \<noteq> []" by simp
    have inv: "bfs_inv adj (bfs_step adj st)"
      using "1.prems" Cons by (rule bfs_step_inv)
    have "set (order st) \<union> set (queue st)
        \<subseteq> set (order (bfs_step adj st)) \<union> set (queue (bfs_step adj st))"
      using "1.prems" Cons by (rule bfs_step_grows)
    also have "\<dots> \<subseteq> set (order (bfs_loop adj (bfs_step adj st)))"
      using ne inv by (rule "1.IH")
    finally show ?thesis
      using ne by (simp add: bfs_loop.simps [of adj st])
  qed
qed

lemma bfs_loop_within:
  assumes "\<And>u. u \<in> R \<Longrightarrow> set (dict_get adj u []) \<subseteq> R"
    and "set (order st) \<union> set (queue st) \<subseteq> R"
  shows "set (order (bfs_loop adj st)) \<subseteq> R"
  using assms
proof (induction adj st rule: bfs_loop.induct)
  case (1 adj st)
  show ?case
  proof (cases "queue st")
    case Nil
    with "1.prems"(2) show ?thesis by (simp add: bfs_loop.simps [of adj st])
  next
    case (Cons cur rest)
    then have ne: "queue st \<noteq> []" by simp
    have "set (order (bfs_step adj st)) \<union> set (queue (bfs_step adj st)) \<subseteq> R"
      using "1.prems" Cons by (rule bfs_step_within)
    with "1.IH" [OF ne "1.prems"(1)] ne show ?thesis
      by (simp add: bfs_loop.simps [of adj st])
  qed
qed

lemma neighbour_edge:
  "v \<in> set (dict_get (fst (build_adjacency edges)) u []) \<longleftrightarrow> (u, v) \<in> edge_rel edges"
  by (auto simp: dict_get_build_adjacency edge_rel_def)

lemma bfs_loop_reachable:
  "set (order (bfs_loop (fst (build_adjacency edges)) (initial_state start_node)))
     = reachable edges start_node"
proof
  let ?adj = "fst (build_adjacency edges)"
  let ?final = "bfs_loop ?adj (initial_state start_node)"
  show "set (order ?final) \<subseteq> reachable edges start_node"
  proof (rule bfs_loop_within)
    fix u
    assume "u \<in> reachable edges start_node"
    then show "set (dict_get ?adj u []) \<subseteq> reachable edges start_node"
      unfolding reachable_def by (auto simp: neighbour_edge intro: rtrancl_into_rtrancl)
  next
    show "set (order (initial_state start_node)) \<union> set (queue (initial_state start_node))
        \<subseteq> reachable edges start_node"
      by (simp add: initial_state_def reachable_def)
  qed
  have inv: "bfs_inv ?adj ?final"
    using bfs_inv_initial by (rule bfs_loop_inv)
  have closed: "set (dict_get ?adj u []) \<subseteq> set (order ?final)" if "u \<in> set (order ?final)" for u
    using inv that bfs_loop_queue_empty [of ?adj "initial_state start_node"]
    unfolding bfs_inv_def by auto
  have first: "start_node \<in> set (order ?final)"
    using bfs_loop_grows [of ?adj "initial_state start_node"] bfs_inv_initial [of ?adj start_node]
    by (simp add: initial_state_def)
  show "reachable edges start_node \<subseteq> set (order ?final)"
  proof
    fix v
    assume "v \<in> reachable edges start_node"
    then have "(start_node, v) \<in> (edge_rel edges)\<^sup>*"
      by (simp add: reachable_def)
    then show "v \<in> set (order ?final)"
    proof (induction rule: rtrancl_induct)
      case base
      then show ?case by (rule first)
    next
      case (step u w)
      then have "w \<in> set (dict_get ?adj u [])"
        by (simp add: neighbour_edge)
      with closed [OF step.IH] show ?case by blast
    qed
  qed
qed

lemma reachable_within:
  assumes "start_node \<in> ids" and "\<forall>e \<in> set edges. edge_target e \<in> ids"
  shows "reachable edges start_node \<subseteq> ids"
proof
  fix v
  assume "v \<in> reachable edges start_node"
  then have "(start_node, v) \<in> (edge_rel edges)\<^sup>*"
    by (simp add: reachable_def)
  then show "v \<in> ids"
  proof (induction rule: rtrancl_induct)
    case base
    then show ?case by (rule assms(1))
  next
    case (step u w)
    then show ?case using assms(2) by (auto simp: edge_rel_def)
  qed
qed

subsection \<open>The start node and the result\<close>

lemma find_start_loop_id: "find_start_loop nodes = Some s \<Longrightarrow> s \<in> node_id ` set nodes"
  by (induction nodes) (auto simp: Let_def split: if_splits)

lemma find_start_node_id: "find_start_node nodes = Some s \<Longrightarrow> s \<in> node_id ` set nodes"
  by (auto simp: find_start_node_def dest: find_start_loop_id split: option.splits list.splits)

lemma find_start_node_None: "find_start_node nodes = None \<Longrightarrow> nodes = []"
  by (auto simp: find_start_node_def split: option.splits list.splits)

lemma traverse_graph_order:
  assumes "find_start_node nodes = Some start_node" and "start_node \<noteq> []"
  shows "fst (traverse_graph list_of nodes edges) =
     order (bfs_loop (fst (build_adjacency edges)) (initial_state start_node))
     @ set_to_list list_of
         (set (map node_id nodes)
            - set (order (bfs_loop (fst (build_adjacency edges)) (initial_state start_node))))"
  using assms by (simp add: traverse_graph_def split_beta Let_def del: set_map)

lemma traverse_graph_empty: "fst (traverse_graph list_of [] edges) = []"
  by (simp add: traverse_graph_def split_beta find_start_node_def)

lemma dangling_order:
  "fst (traverse_graph sorted_list_of_set dangling_nodes dangling_edges) = [''d'', ''x'']"
proof -
  have start: "find_start_node dangling_nodes = Some ''d''"
    by code_simp
  have adj: "fst (build_adjacency dangling_edges) = [(''d'', [''x''])]"
    by code_simp
  have loop: "order (bfs_loop [(''d'', [''x''])] (initial_state ''d'')) = [''d'', ''x'']"
    by (simp add: bfs_loop.simps bfs_step_def initial_state_def dict_get_def)
  show ?thesis
    unfolding traverse_graph_order [OF start, of sorted_list_of_set dangling_edges, simplified]
      adj loop
    by (simp add: set_to_list_def dangling_nodes_def)
qed

lemma twin_order: "fst (traverse_graph sorted_list_of_set twin_nodes []) = [''a'']"
  by code_simp

lemma nameless_order: "fst (traverse_graph sorted_list_of_set nameless_nodes []) = []"
  by code_simp

text \<open>
  C1, as the claim states it, fails: the single node \<open>d\<close> has an edge to the id \<open>x\<close>
  that is no node, and the traversal order is d, x, of length 2. It fails as well for two
  nodes that share the id \<open>a\<close> (the order is a, of length 1) and for a single node
  whose id is the empty string (the order is empty).
\<close>

theorem traversal_order_counterexample:
  "map node_id dangling_nodes = [''d'']
   \<and> fst (traverse_graph sorted_list_of_set dangling_nodes dangling_edges) = [''d'', ''x'']
   \<and> length (fst (traverse_graph sorted_list_of_set dangling_nodes dangling_edges))
        \<noteq> length dangling_nodes
   \<and> map node_id twin_nodes = [''a'', ''a'']
   \<and> fst (traverse_graph sorted_list_of_set twin_nodes []) = [''a'']
   \<and> map node_id nameless_nodes = ['''']
   \<and> fst (traverse_graph sorted_list_of_set nameless_nodes []) = []"
  unfolding dangling_order twin_order nameless_order
  by (simp add: dangling_nodes_def twin_nodes_def nameless_nodes_def)

text \<open>
  C1, amended. For every node list with distinct ids and every edge list whose targets
  are ids of nodes, when the id of the start node is not empty and the listing of a set
  yields each of its elements once, the traversal order has as many entries as there are
  nodes and is a permutation of the node ids, with no id twice and none left out. It is the
  breadth-first order from the start node, which holds exactly the ids that the edges
  reach from it, followed by the listing of the ids of the other nodes.
\<close>

theorem traversal_order_permutation:
  assumes ids: "distinct (map node_id nodes)"
    and targets: "\<forall>e \<in> set edges. edge_target e \<in> node_id ` set nodes"
    and start: "find_start_node nodes \<noteq> Some ''''"
    and lists: "\<And>S. finite S \<Longrightarrow> S \<noteq> {} \<Longrightarrow> set (list_of S) = S \<and> distinct (list_of S)"
  shows "length (fst (traverse_graph list_of nodes edges)) = length nodes
    \<and> distinct (fst (traverse_graph list_of nodes edges))
    \<and> mset (fst (traverse_graph list_of nodes edges)) = mset (map node_id nodes)
    \<and> (\<forall>start_node. find_start_node nodes = Some start_node \<longrightarrow>
          fst (traverse_graph list_of nodes edges)
            = textbook_bfs (fst (build_adjacency edges)) start_node
              @ set_to_list list_of (node_id ` set nodes - reachable edges start_node)
          \<and> set (textbook_bfs (fst (build_adjacency edges)) start_node)
              = reachable edges start_node
          \<and> set (set_to_list list_of (node_id ` set nodes - reachable edges start_node))
              = node_id ` set nodes - reachable edges start_node)"
proof (cases "find_start_node nodes")
  case None
  then have "nodes = []" by (rule find_start_node_None)
  with None show ?thesis by (simp add: traverse_graph_empty)
next
  case (Some s)
  let ?adj = "fst (build_adjacency edges)"
  let ?bfs = "order (bfs_loop ?adj (initial_state s))"
  let ?ids = "node_id ` set nodes"
  let ?rest = "set_to_list list_of (?ids - reachable edges s)"
  let ?order = "fst (traverse_graph list_of nodes edges)"
  from Some start have ne: "s \<noteq> []" by auto
  have s: "s \<in> ?ids"
    using Some by (rule find_start_node_id)
  have reach: "set ?bfs = reachable edges s"
    by (rule bfs_loop_reachable)
  have textbook: "?bfs = textbook_bfs ?adj s"
    by (rule bfs_loop_textbook)
  have order: "?order = ?bfs @ ?rest"
    unfolding traverse_graph_order [OF Some ne] reach by simp
  have inside: "reachable edges s \<subseteq> ?ids"
    using s targets by (rule reachable_within)
  have rest: "set ?rest = ?ids - reachable edges s \<and> distinct ?rest"
  proof (cases "?ids - reachable edges s = {}")
    case True
    then show ?thesis by (simp add: set_to_list_def)
  next
    case False
    moreover have "finite (?ids - reachable edges s)" by simp
    ultimately show ?thesis
      using lists [of "?ids - reachable edges s"] by (simp add: set_to_list_def)
  qed
  have "bfs_inv ?adj (bfs_loop ?adj (initial_state s))"
    using bfs_inv_initial by (rule bfs_loop_inv)
  then have dist_bfs: "distinct ?bfs"
    unfolding bfs_inv_def by blast
  have dist: "distinct ?order"
    unfolding order using dist_bfs rest reach by auto
  have set_order: "set ?order = set (map node_id nodes)"
    unfolding order using rest reach inside by auto
  have perm: "mset ?order = mset (map node_id nodes)"
    by (rule set_eq_iff_mset_eq_distinct [OF dist ids, THEN iffD1, OF set_order])
  then have len: "length ?order = length nodes"
    using mset_eq_length [of ?order "map node_id nodes"] by simp
  have parts: "\<forall>start_node. find_start_node nodes = Some start_node \<longrightarrow>
          ?order = textbook_bfs ?adj start_node
              @ set_to_list list_of (?ids - reachable edges start_node)
          \<and> set (textbook_bfs ?adj start_node) = reachable edges start_node
          \<and> set (set_to_list list_of (?ids - reachable edges start_node))
              = ?ids - reachable edges start_node"
    using Some order textbook reach rest by auto
  from len dist perm parts show ?thesis
    by (intro conjI)
qed

lemma island_order:
  "fst (traverse_graph sorted_list_of_set island_nodes cycle_edges) = [''A'', ''B'', ''C'']"
proof -
  have start: "find_start_node island_nodes = Some ''A''"
    by code_simp
  show ?thesis
    unfolding traverse_graph_order [OF start, of sorted_list_of_set cycle_edges, simplified]
      cycle_adjacency cycle_loop_order
    by (simp add: set_to_list_def island_nodes_def)
qed

text \<open>
  The theorem at the cycle A \<rightarrow> B, B \<rightarrow> A with a third node C that no edge reaches, the
  sets listed in sorted order.
\<close>

theorem traversal_order_permutation_witness:
  "fst (traverse_graph sorted_list_of_set island_nodes cycle_edges) = [''A'', ''B'', ''C'']
   \<and> length (fst (traverse_graph sorted_list_of_set island_nodes cycle_edges))
       = length island_nodes
   \<and> mset (fst (traverse_graph sorted_list_of_set island_nodes cycle_edges))
       = mset (map node_id island_nodes)
   \<and> textbook_bfs (fst (build_adjacency cycle_edges)) ''A'' = [''A'', ''B'']"
proof -
  have ids: "distinct (map node_id island_nodes)"
    by (simp add: island_nodes_def)
  have targets: "\<forall>e \<in> set cycle_edges. edge_target e \<in> node_id ` set island_nodes"
    by (simp add: island_nodes_def cycle_edges_def)
  have start: "find_start_node island_nodes \<noteq> Some ''''"
    by code_simp
  have lists: "\<And>S :: string set. finite S \<Longrightarrow> S \<noteq> {}
      \<Longrightarrow> set (sorted_list_of_set S) = S \<and> distinct (sorted_list_of_set S)"
    by simp
  note permutation = traversal_order_permutation [OF ids targets start lists]
  have bfs: "textbook_bfs (fst (build_adjacency cycle_edges)) ''A'' = [''A'', ''B'']"
    unfolding bfs_loop_textbook [symmetric] cycle_adjacency by (rule cycle_loop_order)
  from permutation island_order bfs show ?thesis
    by (intro conjI) blast+
qed

section \<open>C2: the four-node flowchart\<close>

lemma scenario_type: "classify_diagram_type scenario_nodes = ''Flowchart''"
  by code_simp

lemma scenario_adjacency:
  "fst (build_adjacency scenario_edges)
     = [(''n1'', [''n2'']), (''n2'', [''n3'']), (''n3'', [''n4''])]"
  by code_simp

lemma scenario_start: "find_start_node scenario_nodes = Some ''n1''"
  by code_simp

lemma scenario_loop_order:
  "order (bfs_loop [(''n1'', [''n2'']), (''n2'', [''n3'']), (''n3'', [''n4''])]
            (initial_state ''n1'')) = [''n1'', ''n2'', ''n3'', ''n4'']"
  by (simp add: bfs_loop.simps bfs_step_def initial_state_def dict_get_def)

lemma scenario_order:
  "fst (traverse_graph list_of scenario_nodes scenario_edges) = [''n1'', ''n2'', ''n3'', ''n4'']"
proof -
  obtain adj labels where b: "build_adjacency scenario_edges = (adj, labels)"
    by (cases "build_adjacency scenario_edges")
  with scenario_adjacency have adj: "adj = [(''n1'', [''n2'']), (''n2'', [''n3'']), (''n3'', [''n4''])]"
    by simp
  show ?thesis
    unfolding traverse_graph_def b adj
    by (simp add: scenario_start Let_def scenario_loop_order set_to_list_def)
      (simp add: scenario_nodes_def)
qed

lemma scenario_visit:
  "map step_node_id
     (snd (visit_nodes templates (build_id_to_node scenario_nodes)
             (build_next_map scenario_edges) roles [''n1'', ''n2'', ''n3'', ''n4''] {} []))
     = [''n1'', ''n2'', ''n3'', ''n4'']"
  "map step_role
     (snd (visit_nodes templates (build_id_to_node scenario_nodes)
             (build_next_map scenario_edges)
             [(''n1'', ''Start''), (''n2'', ''Input''), (''n3'', ''Input''), (''n4'', ''Start'')]
             [''n1'', ''n2'', ''n3'', ''n4''] {} []))
     = [''Start'', ''Input'', ''Input'', ''Start'']"
  "map step_next_id
     (snd (visit_nodes templates (build_id_to_node scenario_nodes)
             (build_next_map scenario_edges)
             [(''n1'', ''Start''), (''n2'', ''Input''), (''n3'', ''Input''), (''n4'', ''Start'')]
             [''n1'', ''n2'', ''n3'', ''n4''] {} []))
     = [Some ''n2'', Some ''n3'', Some ''n4'', None]"
  by (simp_all add: build_id_to_node_def build_next_map_def scenario_nodes_def
      scenario_edges_def dict_get_def step_next_id_make_step lower_def lower_char_def)

text \<open>
  C2, as the claim states it, fails: the role classifier gives Input, not Output, to
  \<open>n3\<close> (the parallelogram rule comes before the print rule) and Start, not End, to
  \<open>n4\<close> (the ellipse rule comes before the end rule).
\<close>

theorem flowchart_scenario_counterexample:
  "map_of (classify_node_roles scenario_nodes (classify_diagram_type scenario_nodes)
             (Some scenario_edges)) ''n3'' \<noteq> Some ''Output''
   \<and> map_of (classify_node_roles scenario_nodes (classify_diagram_type scenario_nodes)
             (Some scenario_edges)) ''n4'' \<noteq> Some ''End''"
  unfolding scenario_type scenario_roles by simp

text \<open>
  C2, amended. For the four-node diagram the diagram classifier returns Flowchart; the role
  map is n1: Start, n2: Input, n3: Input, n4: Start; the traversal order is n1, n2, n3, n4;
  and with that order and those roles the execution flow, for every template table, has
  exactly four steps, for n1, n2, n3 and n4 in this order, with the roles of the role map,
  and each step but the last carries the \<^verbatim>\<open>next_id\<close> of the next node in the chain.
\<close>

theorem flowchart_scenario:
  "classify_diagram_type scenario_nodes = ''Flowchart''
   \<and> classify_node_roles scenario_nodes (classify_diagram_type scenario_nodes)
        (Some scenario_edges)
      = [(''n1'', ''Start''), (''n2'', ''Input''), (''n3'', ''Input''), (''n4'', ''Start'')]
   \<and> fst (traverse_graph list_of scenario_nodes scenario_edges) = [''n1'', ''n2'', ''n3'', ''n4'']
   \<and> map step_node_id (fd_execution_flow
        (interpret_flowchart templates scenario_nodes scenario_edges
           (classify_node_roles scenario_nodes (classify_diagram_type scenario_nodes)
              (Some scenario_edges))
           (fst (traverse_graph list_of scenario_nodes scenario_edges))
           (classify_diagram_type scenario_nodes)))
      = [''n1'', ''n2'', ''n3'', ''n4'']
   \<and> map step_role (fd_execution_flow
        (interpret_flowchart templates scenario_nodes scenario_edges
           (classify_node_roles scenario_nodes (classify_diagram_type scenario_nodes)
              (Some scenario_edges))
           (fst (traverse_graph list_of scenario_nodes scenario_edges))
           (classify_diagram_type scenario_nodes)))
      = [''Start'', ''Input'', ''Input'', ''Start'']
   \<and> map step_next_id (fd_execution_flow
        (interpret_flowchart templates scenario_nodes scenario_edges
           (classify_node_roles scenario_nodes (classify_diagram_type scenario_nodes)
              (Some scenario_edges))
           (fst (traverse_graph list_of scenario_nodes scenario_edges))
           (classify_diagram_type scenario_nodes)))
      = [Some ''n2'', Some ''n3'', Some ''n4'', None]"
  unfolding scenario_type scenario_roles scenario_order
  by (simp add: interpret_flowchart_def Let_def scenario_visit del: visit_nodes.simps)

text \<open>The theorem with no templates and with the sets listed in sorted order.\<close>

theorem flowchart_scenario_witness:
  "fst (traverse_graph sorted_list_of_set scenario_nodes scenario_edges)
     = [''n1'', ''n2'', ''n3'', ''n4'']
   \<and> map step_next_id (fd_execution_flow
        (interpret_flowchart [] scenario_nodes scenario_edges
           (classify_node_roles scenario_nodes (classify_diagram_type scenario_nodes)
              (Some scenario_edges))
           (fst (traverse_graph sorted_list_of_set scenario_nodes scenario_edges))
           (classify_diagram_type scenario_nodes)))
      = [Some ''n2'', Some ''n3'', Some ''n4'', None]"
  using flowchart_scenario [of sorted_list_of_set "[]"] by (intro conjI) blast+

section \<open>C3: the UserAccount node\<close>

lemma account_scores:
  "node_scores account_nodes =
     [(''UML Class Diagram'', 1), (''Flowchart'', 1), (''UML Sequence Diagram'', 0),
      (''ER Diagram'', 0), (''UML Activity Diagram'', 0)]"
  by code_simp

lemma account_type: "classify_diagram_type account_nodes = ''Flowchart''"
  by code_simp

lemma account_role_flowchart:
  "classify_node_roles account_nodes ''Flowchart'' None = [(''n1'', ''Process'')]"
  by code_simp

lemma account_role_uml:
  "classify_node_roles account_nodes ''UML Class Diagram'' None = [(''n1'', ''Class'')]"
  by code_simp

lemma account_no_class:
  "\<not> is_in ''class'' (lower ''UserAccount { id: int, name: str }'')"
  by code_simp

text \<open>
  C3, as the claim states it, fails: the label has no \<^verbatim>\<open>class\<close> in it, the structural
  rule adds nothing, the score of UML Class Diagram is 1, not 4, and the type is not UML
  Class Diagram.
\<close>

theorem account_scenario_counterexample:
  "dict_get (node_scores account_nodes) ''UML Class Diagram'' 0 = 1
   \<and> classify_diagram_type account_nodes \<noteq> ''UML Class Diagram''"
  unfolding account_scores account_type by (simp add: dict_get_def)

text \<open>
  C3, amended. For the diagram whose only node has the label
  \<^verbatim>\<open>UserAccount { id: int, name: str }\<close> and the shape roundrectangle, the lowercased label
  does not contain \<^verbatim>\<open>class\<close>, so the brace-plus-class rule adds nothing: the scores
  are UML Class Diagram 1 and Flowchart 1, both from the shape, and the others 0; the type
  resolves to Flowchart, the default of the ambiguous case, and the role of the node under
  that type is Process. Under the type UML Class Diagram the role classifier gives the node
  the role Class, by its brace rule.
\<close>

theorem account_scenario:
  "\<not> is_in ''class'' (lower (node_label (hd account_nodes)))
   \<and> node_scores account_nodes =
       [(''UML Class Diagram'', 1), (''Flowchart'', 1), (''UML Sequence Diagram'', 0),
        (''ER Diagram'', 0), (''UML Activity Diagram'', 0)]
   \<and> classify_diagram_type account_nodes = ''Flowchart''
   \<and> classify_node_roles account_nodes (classify_diagram_type account_nodes) None
       = [(''n1'', ''Process'')]
   \<and> classify_node_roles account_nodes ''UML Class Diagram'' None = [(''n1'', ''Class'')]"
  unfolding account_type account_role_flowchart account_role_uml account_scores
  using account_no_class by (simp add: account_nodes_def)

theorem account_scenario_witness:
  "map_of (classify_node_roles account_nodes (classify_diagram_type account_nodes) None) ''n1''
     = Some ''Process''
   \<and> dict_get (node_scores account_nodes) ''Flowchart'' 0 = 1"
proof -
  note scenario = account_scenario
  have "classify_node_roles account_nodes (classify_diagram_type account_nodes) None
       = [(''n1'', ''Process'')]"
    using scenario by blast
  moreover have "node_scores account_nodes =
       [(''UML Class Diagram'', 1), (''Flowchart'', 1), (''UML Sequence Diagram'', 0),
        (''ER Diagram'', 0), (''UML Activity Diagram'', 0)]"
    using scenario by blast
  ultimately show ?thesis
    by (simp add: dict_get_def)
qed

section \<open>C4 and C5: the loader\<close>

text \<open>
  C4 fails on the code. The variable \<^verbatim>\<open>generic\<close> is bound only when the first two
  shape sources give nothing. A document whose first node has an explicit shape makes the
  read of \<^verbatim>\<open>generic\<close> raise \<^verbatim>\<open>UnboundLocalError\<close>; the handler turns that into
  two empty lists, so the node is not returned at all. When a generic node comes first, a
  later node with an explicit shape and no generic-node element records the configuration
  string of the earlier node, not the empty string.
\<close>

theorem raw_config_not_recorded:
  "parse_body (Inr explicit_shape_doc) = Inl (UnboundLocalError ''generic'')
   \<and> parse_graphml (Inr explicit_shape_doc) = Inr ([], [])
   \<and> parse_graphml (Inr generic_then_shape_doc) =
       Inr ([\<lparr>node_id = ''n1'', node_label = ''Compute'', node_shape = ''rectangle'',
               node_metadata = [(''raw_shape'', ''rectangle''),
                                (''raw_config'', ''com.yworks.flowchart.process'')]\<rparr>,
             \<lparr>node_id = ''n2'', node_label = ''End'', node_shape = ''ellipse'',
               node_metadata = [(''raw_shape'', ''ellipse''),
                                (''raw_config'', ''com.yworks.flowchart.process'')]\<rparr>],
            [])"
  by code_simp

lemma no_id_body: "parse_body (Inr no_id_doc) = Inl (KeyError ''id'')"
  by code_simp

lemma no_graph_child: "find_child ''graphml:graph'' no_graph_doc = None"
  by code_simp

text \<open>
  C5. No exception leaves \<^verbatim>\<open>parse_graphml\<close>: for every outcome of
  \<^verbatim>\<open>ET.parse\<close> the function returns a pair of lists; when any exception is raised in
  the \<^verbatim>\<open>try\<close> block (by \<^verbatim>\<open>ET.parse\<close> itself or while the document is read) and
  when the root has no graph element, it returns two empty lists.
\<close>

theorem parse_graphml_never_raises:
  "(\<exists>nodes edges. parse_graphml parsed = Inr (nodes, edges))
   \<and> (\<forall>err. parse_body parsed = Inl err \<longrightarrow> parse_graphml parsed = Inr ([], []))
   \<and> (\<forall>err. parsed = Inl err \<longrightarrow> parse_graphml parsed = Inr ([], []))
   \<and> (\<forall>root. parsed = Inr root \<and> find_child ''graphml:graph'' root = None \<longrightarrow>
         parse_graphml parsed = Inr ([], []))"
proof (intro conjI allI impI)
  show "\<exists>nodes edges. parse_graphml parsed = Inr (nodes, edges)"
  proof (cases "parse_body parsed")
    case (Inl err)
    then show ?thesis by (simp add: parse_graphml_def)
  next
    case (Inr result)
    then show ?thesis by (cases result) (simp add: parse_graphml_def)
  qed
next
  fix err
  assume "parse_body parsed = Inl err"
  then show "parse_graphml parsed = Inr ([], [])"
    by (simp add: parse_graphml_def)
next
  fix err
  assume "parsed = Inl err"
  then show "parse_graphml parsed = Inr ([], [])"
    by (simp add: parse_graphml_def parse_body_def)
next
  fix root
  assume "parsed = Inr root \<and> find_child ''graphml:graph'' root = None"
  then show "parse_graphml parsed = Inr ([], [])"
    by (simp add: parse_graphml_def parse_body_def)
qed

text \<open>
  The theorem at a document whose node has no \<^verbatim>\<open>id\<close> attribute (a
  \<^verbatim>\<open>KeyError\<close> in the loop), at a failed \<^verbatim>\<open>ET.parse\<close> and at a root with no
  graph element.
\<close>

theorem parse_graphml_never_raises_witness:
  "parse_body (Inr no_id_doc) = Inl (KeyError ''id'')
   \<and> parse_graphml (Inr no_id_doc) = Inr ([], [])
   \<and> parse_graphml (Inl ParseError) = Inr ([], [])
   \<and> find_child ''graphml:graph'' no_graph_doc = None
   \<and> parse_graphml (Inr no_graph_doc) = Inr ([], [])"
proof -
  have a: "parse_graphml (Inr no_id_doc) = Inr ([], [])"
    using parse_graphml_never_raises [of "Inr no_id_doc"] no_id_body by blast
  have b: "parse_graphml (Inl ParseError) = Inr ([], [])"
    using parse_graphml_never_raises [of "Inl ParseError"] by blast
  have c: "parse_graphml (Inr no_graph_doc) = Inr ([], [])"
    using parse_graphml_never_raises [of "Inr no_graph_doc"] no_graph_child by blast
  from no_id_body a b no_graph_child c show ?thesis
    by (intro conjI)
qed

section \<open>C6: the role map\<close>

lemma update_new_key:
  "k \<notin> fst ` set al \<Longrightarrow> AList.update k v al = al @ [(k, v)]"
  by (induction al) auto

lemma foldl_update_keys:
  "fst ` set (foldl (\<lambda>m n. AList.update (k n) (v n) m) acc ns) = fst ` set acc \<union> k ` set ns"
proof (induction ns arbitrary: acc)
  case Nil
  then show ?case by simp
next
  case (Cons n ns)
  show ?case
    unfolding foldl_Cons Cons.IH dom_update by auto
qed

lemma foldl_update_distinct:
  "distinct (map fst acc) \<Longrightarrow>
     distinct (map fst (foldl (\<lambda>m n. AList.update (k n) (v n) m) acc ns))"
proof (induction ns arbitrary: acc)
  case Nil
  then show ?case by simp
next
  case (Cons n ns)
  from Cons.prems have "distinct (map fst (AList.update (k n) (v n) acc))"
    by (rule distinct_update)
  then show ?case
    unfolding foldl_Cons by (rule Cons.IH)
qed

lemma foldl_update_lookup:
  "map_of (foldl (\<lambda>m n. AList.update (k n) (v n) m) acc ns) i = Some r \<Longrightarrow>
     map_of acc i = Some r \<or> (\<exists>n \<in> set ns. k n = i \<and> v n = r)"
proof (induction ns arbitrary: acc)
  case Nil
  then show ?case by simp
next
  case (Cons n ns)
  from Cons.prems have
    "map_of (foldl (\<lambda>m n. AList.update (k n) (v n) m) (AList.update (k n) (v n) acc) ns) i
       = Some r"
    by simp
  from Cons.IH [OF this] show ?case
    by (auto simp: update_conv' split: if_splits)
qed

lemma foldl_update_fresh:
  "distinct (map k ns) \<Longrightarrow> k ` set ns \<inter> fst ` set acc = {} \<Longrightarrow>
     foldl (\<lambda>m n. AList.update (k n) (v n) m) acc ns = acc @ map (\<lambda>n. (k n, v n)) ns"
proof (induction ns arbitrary: acc)
  case Nil
  then show ?case by simp
next
  case (Cons n ns)
  from Cons.prems have fresh: "k n \<notin> fst ` set acc"
    by auto
  have step: "AList.update (k n) (v n) acc = acc @ [(k n, v n)]"
    using fresh by (rule update_new_key)
  have "foldl (\<lambda>m n. AList.update (k n) (v n) m) (acc @ [(k n, v n)]) ns
          = (acc @ [(k n, v n)]) @ map (\<lambda>n. (k n, v n)) ns"
    using Cons.prems by (intro Cons.IH) auto
  then show ?case
    by (simp add: step)
qed

lemma classify_node_roles_foldl:
  "classify_node_roles nodes diagram_type edges =
     foldl (\<lambda>m n. AList.update (node_id n) (node_role diagram_type n) m) [] nodes"
  by (simp add: classify_node_roles_def Let_def)

lemma flowchart_role_vocabulary:
  "flowchart_role label shape \<in> set (role_vocabulary ''Flowchart'')"
  by (simp add: flowchart_role_def role_vocabulary_def)

lemma uml_class_role_vocabulary:
  "uml_class_role label shape
     \<in> set (role_vocabulary ''UML Class Diagram'') \<union> set unknown_sentinels"
  by (simp add: uml_class_role_def role_vocabulary_def unknown_sentinels_def)

lemma sequence_role_vocabulary:
  "sequence_role label \<in> set (role_vocabulary ''UML Sequence Diagram'')"
  by (simp add: sequence_role_def role_vocabulary_def)

lemma er_role_vocabulary:
  "er_role label ''Unknown'' \<in> set (role_vocabulary ''ER Diagram'') \<union> set unknown_sentinels"
  by (simp add: er_role_def role_vocabulary_def unknown_sentinels_def)

lemma activity_role_vocabulary:
  "activity_role label ''Unknown''
     \<in> set (role_vocabulary ''UML Activity Diagram'') \<union> set unknown_sentinels"
  by (simp add: activity_role_def role_vocabulary_def unknown_sentinels_def)

lemma node_role_vocabulary:
  "node_role diagram_type n \<in> set (role_vocabulary diagram_type) \<union> set unknown_sentinels"
proof -
  let ?label = "lower (strip (node_label n))" and ?shape = "lower (strip (node_shape n))"
  consider (flowchart) "diagram_type = ''Flowchart''"
    | (uml) "diagram_type = ''UML Class Diagram''"
    | (sequence) "diagram_type = ''UML Sequence Diagram''"
    | (er) "diagram_type = ''ER Diagram''"
    | (activity) "diagram_type = ''UML Activity Diagram''"
    | (other) "diagram_type \<notin> set [''Flowchart'', ''UML Class Diagram'',
          ''UML Sequence Diagram'', ''ER Diagram'', ''UML Activity Diagram'']"
    by auto
  then show ?thesis
  proof cases
    case flowchart
    then show ?thesis
      using flowchart_role_vocabulary [of ?label ?shape] by (simp add: node_role_def Let_def)
  next
    case uml
    then show ?thesis
      using uml_class_role_vocabulary [of ?label ?shape] by (simp add: node_role_def Let_def)
  next
    case sequence
    then show ?thesis
      using sequence_role_vocabulary [of ?label] by (simp add: node_role_def Let_def)
  next
    case er
    then show ?thesis
      using er_role_vocabulary [of ?label] by (simp add: node_role_def Let_def)
  next
    case activity
    then show ?thesis
      using activity_role_vocabulary [of ?label] by (simp add: node_role_def Let_def)
  next
    case other
    then show ?thesis
      by (simp add: node_role_def Let_def unknown_sentinels_def)
  qed
qed

lemma startswith_append: "startswith l (p @ q) \<Longrightarrow> startswith l p"
  by (induction l p rule: startswith.induct) auto

lemma is_in_append: "is_in (p @ q) l \<Longrightarrow> is_in p l"
  by (induction l) (auto dest: startswith_append)

lemma is_in_relationship: "is_in ''relationship'' l \<Longrightarrow> is_in ''relation'' l"
  using is_in_append [of "''relation''" "''ship''" l] by simp

lemma plain_sequence_role:
  "classify_node_roles plain_nodes ''UML Sequence Diagram'' None = [(''p'', ''Actor'')]"
  by code_simp

lemma plain_label_unmatched:
  "\<not> is_in ''lifeline'' (lower (strip ''Customer''))
   \<and> \<not> is_in ''message'' (lower (strip ''Customer''))
   \<and> \<not> is_in ''-->'' (lower (strip ''Customer''))"
  by code_simp

text \<open>
  C6, as the claim states it, fails for the sequence type: the node labelled Customer
  matches none of the sequence keywords (lifeline, message, the arrow), and its role is
  Actor, not Unknown.
\<close>

theorem role_map_counterexample:
  "\<not> is_in ''lifeline'' (lower (strip (node_label (hd plain_nodes))))
   \<and> \<not> is_in ''message'' (lower (strip (node_label (hd plain_nodes))))
   \<and> \<not> is_in ''-->'' (lower (strip (node_label (hd plain_nodes))))
   \<and> map_of (classify_node_roles plain_nodes ''UML Sequence Diagram'' None) ''p'' = Some ''Actor''
   \<and> map_of (classify_node_roles plain_nodes ''UML Sequence Diagram'' None) ''p''
        \<noteq> Some ''Unknown''"
  using plain_label_unmatched unfolding plain_sequence_role
  by (simp add: plain_nodes_def)

text \<open>
  C6, amended. For every node list and every diagram type the role map has exactly one
  entry for each node id, and the role of every entry is the role the cascade gives to a
  node with that id (to each node, in list order, when the ids are distinct): a role of the
  type's vocabulary or one of the sentinels Unknown and Unknown UML Part. A node that
  matches none of the keywords of its type gets the role Unknown under the ER and the
  activity type, and under a type that is none of the five; under the sequence type it gets
  the role Actor.
\<close>

theorem role_map_entries:
  "distinct (map fst (classify_node_roles nodes diagram_type edges))
   \<and> fst ` set (classify_node_roles nodes diagram_type edges) = node_id ` set nodes
   \<and> (\<forall>i r. map_of (classify_node_roles nodes diagram_type edges) i = Some r \<longrightarrow>
         (\<exists>n \<in> set nodes. node_id n = i \<and> r = node_role diagram_type n)
         \<and> r \<in> set (role_vocabulary diagram_type) \<union> set unknown_sentinels)
   \<and> (distinct (map node_id nodes) \<longrightarrow>
         classify_node_roles nodes diagram_type edges
           = map (\<lambda>n. (node_id n, node_role diagram_type n)) nodes)
   \<and> (diagram_type = ''ER Diagram''
         \<and> \<not> is_in ''entity'' (lower (strip (node_label n)))
         \<and> \<not> is_in ''attribute'' (lower (strip (node_label n)))
         \<and> \<not> is_in ''relation'' (lower (strip (node_label n)))
       \<longrightarrow> node_role diagram_type n = ''Unknown'')
   \<and> (diagram_type = ''UML Activity Diagram''
         \<and> \<not> is_in ''fork'' (lower (strip (node_label n)))
         \<and> \<not> is_in ''join'' (lower (strip (node_label n)))
         \<and> \<not> is_in ''action'' (lower (strip (node_label n)))
         \<and> \<not> is_in ''activity'' (lower (strip (node_label n)))
         \<and> \<not> is_in ''swimlane'' (lower (strip (node_label n)))
       \<longrightarrow> node_role diagram_type n = ''Unknown'')
   \<and> (diagram_type = ''UML Sequence Diagram''
         \<and> \<not> is_in ''lifeline'' (lower (strip (node_label n)))
         \<and> \<not> is_in ''message'' (lower (strip (node_label n)))
         \<and> \<not> is_in ''-->'' (lower (strip (node_label n)))
       \<longrightarrow> node_role diagram_type n = ''Actor'')
   \<and> (diagram_type \<notin> set [''Flowchart'', ''UML Class Diagram'', ''UML Sequence Diagram'',
                              ''ER Diagram'', ''UML Activity Diagram'']
       \<longrightarrow> node_role diagram_type n = ''Unknown'')"
proof -
  let ?R = "classify_node_roles nodes diagram_type edges"
  have R: "?R = foldl (\<lambda>m n. AList.update (node_id n) (node_role diagram_type n) m) [] nodes"
    by (rule classify_node_roles_foldl)
  have dist: "distinct (map fst ?R)"
    unfolding R by (rule foldl_update_distinct) simp
  have keys: "fst ` set ?R = node_id ` set nodes"
    unfolding R foldl_update_keys by simp
  have entries: "\<forall>i r. map_of ?R i = Some r \<longrightarrow>
         (\<exists>n \<in> set nodes. node_id n = i \<and> r = node_role diagram_type n)
         \<and> r \<in> set (role_vocabulary diagram_type) \<union> set unknown_sentinels"
  proof (intro allI impI)
    fix i r
    assume "map_of ?R i = Some r"
    then have "\<exists>n \<in> set nodes. node_id n = i \<and> node_role diagram_type n = r"
      unfolding R by (drule_tac foldl_update_lookup) simp
    then obtain m where m: "m \<in> set nodes" "node_id m = i" "r = node_role diagram_type m"
      by blast
    from m node_role_vocabulary [of diagram_type m]
    show "(\<exists>n \<in> set nodes. node_id n = i \<and> r = node_role diagram_type n)
         \<and> r \<in> set (role_vocabulary diagram_type) \<union> set unknown_sentinels"
      by blast
  qed
  have in_order: "distinct (map node_id nodes) \<longrightarrow>
         ?R = map (\<lambda>n. (node_id n, node_role diagram_type n)) nodes"
  proof
    assume "distinct (map node_id nodes)"
    then have "foldl (\<lambda>m n. AList.update (node_id n) (node_role diagram_type n) m) [] nodes
        = [] @ map (\<lambda>n. (node_id n, node_role diagram_type n)) nodes"
      by (rule foldl_update_fresh) simp
    then show "?R = map (\<lambda>n. (node_id n, node_role diagram_type n)) nodes"
      unfolding R by simp
  qed
  have er: "diagram_type = ''ER Diagram''
         \<and> \<not> is_in ''entity'' (lower (strip (node_label n)))
         \<and> \<not> is_in ''attribute'' (lower (strip (node_label n)))
         \<and> \<not> is_in ''relation'' (lower (strip (node_label n)))
       \<longrightarrow> node_role diagram_type n = ''Unknown''"
    using is_in_relationship [of "lower (strip (node_label n))"]
    by (auto simp: node_role_def er_role_def Let_def)
  have activity: "diagram_type = ''UML Activity Diagram''
         \<and> \<not> is_in ''fork'' (lower (strip (node_label n)))
         \<and> \<not> is_in ''join'' (lower (strip (node_label n)))
         \<and> \<not> is_in ''action'' (lower (strip (node_label n)))
         \<and> \<not> is_in ''activity'' (lower (strip (node_label n)))
         \<and> \<not> is_in ''swimlane'' (lower (strip (node_label n)))
       \<longrightarrow> node_role diagram_type n = ''Unknown''"
    by (simp add: node_role_def activity_role_def Let_def)
  have seq: "diagram_type = ''UML Sequence Diagram''
         \<and> \<not> is_in ''lifeline'' (lower (strip (node_label n)))
         \<and> \<not> is_in ''message'' (lower (strip (node_label n)))
         \<and> \<not> is_in ''-->'' (lower (strip (node_label n)))
       \<longrightarrow> node_role diagram_type n = ''Actor''"
    by (simp add: node_role_def sequence_role_def Let_def)
  have other: "diagram_type \<notin> set [''Flowchart'', ''UML Class Diagram'', ''UML Sequence Diagram'',
                              ''ER Diagram'', ''UML Activity Diagram'']
       \<longrightarrow> node_role diagram_type n = ''Unknown''"
    by (simp add: node_role_def Let_def)
  from dist keys entries in_order er activity seq other show ?thesis
    by (intro conjI)
qed

lemma plain_er_role:
  "classify_node_roles plain_nodes ''ER Diagram'' None = [(''p'', ''Unknown'')]"
  by code_simp

lemma plain_er_unmatched:
  "\<not> is_in ''entity'' (lower (strip ''Customer''))
   \<and> \<not> is_in ''attribute'' (lower (strip ''Customer''))
   \<and> \<not> is_in ''relation'' (lower (strip ''Customer''))"
  by code_simp

text \<open>The theorem at the ER diagram with the single node labelled Customer.\<close>

theorem role_map_entries_witness:
  "map_of (classify_node_roles plain_nodes ''ER Diagram'' None) ''p'' = Some ''Unknown''
   \<and> distinct (map node_id plain_nodes)
   \<and> \<not> is_in ''entity'' (lower (strip (node_label (hd plain_nodes))))
   \<and> \<not> is_in ''attribute'' (lower (strip (node_label (hd plain_nodes))))
   \<and> \<not> is_in ''relation'' (lower (strip (node_label (hd plain_nodes))))
   \<and> node_role ''ER Diagram'' (hd plain_nodes) = ''Unknown''
   \<and> ''Unknown'' \<in> set (role_vocabulary ''ER Diagram'') \<union> set unknown_sentinels"
proof -
  note entries = role_map_entries [of plain_nodes "''ER Diagram''" None "hd plain_nodes"]
  have lookup: "map_of (classify_node_roles plain_nodes ''ER Diagram'' None) ''p''
      = Some ''Unknown''"
    unfolding plain_er_role by simp
  have label: "node_label (hd plain_nodes) = ''Customer''"
    by (simp add: plain_nodes_def)
  have unmatched: "\<not> is_in ''entity'' (lower (strip (node_label (hd plain_nodes))))
     \<and> \<not> is_in ''attribute'' (lower (strip (node_label (hd plain_nodes))))
     \<and> \<not> is_in ''relation'' (lower (strip (node_label (hd plain_nodes))))"
    unfolding label by (rule plain_er_unmatched)
  have role: "node_role ''ER Diagram'' (hd plain_nodes) = ''Unknown''"
    using entries [THEN conjunct2, THEN conjunct2, THEN conjunct2, THEN conjunct2,
        THEN conjunct1] unmatched by blast
  have vocab: "''Unknown'' \<in> set (role_vocabulary ''ER Diagram'') \<union> set unknown_sentinels"
    using entries [THEN conjunct2, THEN conjunct2, THEN conjunct1, rule_format, OF lookup]
    by blast
  have dist: "distinct (map node_id plain_nodes)"
    by (simp add: plain_nodes_def)
  from lookup dist unmatched role vocab show ?thesis
    by (intro conjI) blast+
qed

section \<open>C7: the branches of a decision step\<close>

text \<open>
  C7, as the claim states it, fails: the decision node \<open>d\<close> has one outgoing edge, to the
  id \<open>x\<close> that is no node of the diagram, and its step carries an empty branches list.
\<close>

theorem decision_branches_counterexample:
  "\<not> (\<forall>s \<in> set (fd_execution_flow
          (interpret_flowchart [] dangling_nodes dangling_edges [(''d'', ''Decision'')]
             [''d''] ''Flowchart'')).
        lower (step_role s) = ''decision'' \<longrightarrow>
        (\<exists>bs. step_branches s = Some bs
           \<and> length bs = length (filter (\<lambda>e. edge_source e = step_node_id s) dangling_edges)))"
  unfolding dangling_flow by (simp add: dangling_edges_def lower_def lower_char_def)

text \<open>
  C7, amended. For every step of the execution flow whose role is decision (compared in
  lower case), the step carries a branches list with one branch for each outgoing edge of
  the node whose target id is a node of the diagram, so its length is the number of those
  edges (the number of all outgoing edges when every target is a node); the condition label
  of a branch is the stripped, lowercased label of such an edge, and the condition of the
  branch is not empty if and only if that label is one of yes, true, y, no, false, n: it is
  yes for the first three and no for the last three.
\<close>

theorem decision_branches:
  assumes "s \<in> set (fd_execution_flow
        (interpret_flowchart templates nodes edges roles traversal_order diagram_type))"
    and "lower (step_role s) = ''decision''"
  shows "\<exists>bs. step_branches s = Some bs
    \<and> length bs = length (filter (\<lambda>e. edge_source e = step_node_id s
                                      \<and> edge_target e \<in> node_id ` set nodes) edges)
    \<and> ((\<forall>e \<in> set edges. edge_target e \<in> node_id ` set nodes) \<longrightarrow>
         length bs = length (filter (\<lambda>e. edge_source e = step_node_id s) edges))
    \<and> (\<forall>b \<in> set bs.
          (\<exists>e \<in> set edges. edge_source e = step_node_id s
              \<and> edge_target e = branch_target_node_id b
              \<and> branch_condition_label b = lower (strip (edge_label e)))
          \<and> (branch_condition b \<noteq> '''' \<longleftrightarrow>
               branch_condition_label b \<in> set [''yes'', ''true'', ''y'', ''no'', ''false'', ''n''])
          \<and> branch_condition b =
               (if branch_condition_label b \<in> set [''yes'', ''true'', ''y''] then ''yes''
                else if branch_condition_label b \<in> set [''no'', ''false'', ''n''] then ''no''
                else ''''))"
proof -
  let ?I = "build_id_to_node nodes" and ?N = "build_next_map edges"
  from execution_flow_step [OF assms(1)] obtain n where
    n: "n \<in> set nodes" "node_id n = step_node_id s" "s = make_step templates ?I ?N roles n"
    by blast
  let ?outs = "dict_get ?N (node_id n) []"
  have role: "lower (dict_get roles (node_id n) ''Unknown'') = ''decision''"
    using assms(2) n(3) by simp
  define bs where "bs = make_branches ?I ?outs"
  have bs: "step_branches s = Some bs"
    using role by (simp add: n(3) step_branches_make_step bs_def)
  have outs: "?outs = map (\<lambda>e. (edge_target e, lower (strip (edge_label e))))
       (filter (\<lambda>e. edge_source e = step_node_id s) edges)"
    by (simp add: dict_get_build_next_map n(2))
  have len: "length bs = length (filter (\<lambda>e. edge_source e = step_node_id s
                                      \<and> edge_target e \<in> node_id ` set nodes) edges)"
    unfolding bs_def length_make_branches outs
    by (simp add: filter_map o_def dom_build_id_to_node_ex conj_commute)
  have all: "(\<forall>e \<in> set edges. edge_target e \<in> node_id ` set nodes) \<longrightarrow>
         length bs = length (filter (\<lambda>e. edge_source e = step_node_id s) edges)"
  proof
    assume "\<forall>e \<in> set edges. edge_target e \<in> node_id ` set nodes"
    then have "filter (\<lambda>e. edge_source e = step_node_id s
                  \<and> edge_target e \<in> node_id ` set nodes) edges
        = filter (\<lambda>e. edge_source e = step_node_id s) edges"
      by (intro filter_cong) auto
    with len show "length bs = length (filter (\<lambda>e. edge_source e = step_node_id s) edges)"
      by simp
  qed
  have each: "\<forall>b \<in> set bs.
          (\<exists>e \<in> set edges. edge_source e = step_node_id s
              \<and> edge_target e = branch_target_node_id b
              \<and> branch_condition_label b = lower (strip (edge_label e)))
          \<and> (branch_condition b \<noteq> '''' \<longleftrightarrow>
               branch_condition_label b \<in> set [''yes'', ''true'', ''y'', ''no'', ''false'', ''n''])
          \<and> branch_condition b =
               (if branch_condition_label b \<in> set [''yes'', ''true'', ''y''] then ''yes''
                else if branch_condition_label b \<in> set [''no'', ''false'', ''n''] then ''no''
                else '''')"
  proof
    fix b
    assume "b \<in> set bs"
    then have b: "branch_condition b = condition_of (branch_condition_label b)"
      "(branch_target_node_id b, branch_condition_label b) \<in> set ?outs"
      using make_branches_condition [of b ?I ?outs] by (simp_all add: bs_def)
    from b(2) have "\<exists>e \<in> set edges. edge_source e = step_node_id s
              \<and> edge_target e = branch_target_node_id b
              \<and> branch_condition_label b = lower (strip (edge_label e))"
      unfolding outs by auto
    moreover have "branch_condition b \<noteq> '''' \<longleftrightarrow>
        branch_condition_label b \<in> set [''yes'', ''true'', ''y'', ''no'', ''false'', ''n'']"
      unfolding b(1) by (rule condition_of_nonempty)
    moreover have "branch_condition b =
               (if branch_condition_label b \<in> set [''yes'', ''true'', ''y''] then ''yes''
                else if branch_condition_label b \<in> set [''no'', ''false'', ''n''] then ''no''
                else '''')"
      unfolding b(1) by (rule condition_of_values)
    ultimately show "(\<exists>e \<in> set edges. edge_source e = step_node_id s
              \<and> edge_target e = branch_target_node_id b
              \<and> branch_condition_label b = lower (strip (edge_label e)))
          \<and> (branch_condition b \<noteq> '''' \<longleftrightarrow>
               branch_condition_label b \<in> set [''yes'', ''true'', ''y'', ''no'', ''false'', ''n''])
          \<and> branch_condition b =
               (if branch_condition_label b \<in> set [''yes'', ''true'', ''y''] then ''yes''
                else if branch_condition_label b \<in> set [''no'', ''false'', ''n''] then ''no''
                else '''')"
      by blast
  qed
  from bs len all each show ?thesis by blast
qed

text \<open>
  The theorem at the decision node \<open>d\<close> with the edges yes \<rightarrow> a and Maybe \<rightarrow> b: two
  branches, of which the first has a condition and the second has none.
\<close>

theorem decision_branches_witness:
  "hd (fd_execution_flow
        (interpret_flowchart [] decision_nodes decision_edges
           [(''d'', ''Decision''), (''a'', ''Process''), (''b'', ''Process'')]
           [''d'', ''a'', ''b''] ''Flowchart''))
     \<in> set (fd_execution_flow
        (interpret_flowchart [] decision_nodes decision_edges
           [(''d'', ''Decision''), (''a'', ''Process''), (''b'', ''Process'')]
           [''d'', ''a'', ''b''] ''Flowchart''))
   \<and> lower (step_role (hd (fd_execution_flow
        (interpret_flowchart [] decision_nodes decision_edges
           [(''d'', ''Decision''), (''a'', ''Process''), (''b'', ''Process'')]
           [''d'', ''a'', ''b''] ''Flowchart'')))) = ''decision''
   \<and> (\<exists>bs. step_branches (hd (fd_execution_flow
        (interpret_flowchart [] decision_nodes decision_edges
           [(''d'', ''Decision''), (''a'', ''Process''), (''b'', ''Process'')]
           [''d'', ''a'', ''b''] ''Flowchart''))) = Some bs
         \<and> length bs = 2
         \<and> map branch_condition bs = [''yes'', ''''])"
proof -
  let ?flow = "fd_execution_flow
        (interpret_flowchart [] decision_nodes decision_edges
           [(''d'', ''Decision''), (''a'', ''Process''), (''b'', ''Process'')]
           [''d'', ''a'', ''b''] ''Flowchart'')"
  have mem: "hd ?flow \<in> set ?flow"
    unfolding decision_flow by simp
  have role: "lower (step_role (hd ?flow)) = ''decision''"
    unfolding decision_flow by (simp add: lower_def lower_char_def)
  from decision_branches [OF mem role] obtain bs where
    bs: "step_branches (hd ?flow) = Some bs"
      "length bs = length (filter (\<lambda>e. edge_source e = step_node_id (hd ?flow)
                 \<and> edge_target e \<in> node_id ` set decision_nodes) decision_edges)"
    by blast
  have two: "length bs = 2"
    using bs(2) unfolding decision_flow by (simp add: decision_nodes_def decision_edges_def)
  have conds: "map branch_condition bs = [''yes'', '''']"
    using bs(1) unfolding decision_flow by auto
  show ?thesis
  proof (intro conjI)
    show "hd ?flow \<in> set ?flow" by (rule mem)
    show "lower (step_role (hd ?flow)) = ''decision''" by (rule role)
    show "\<exists>bs. step_branches (hd ?flow) = Some bs \<and> length bs = 2
         \<and> map branch_condition bs = [''yes'', '''']"
    proof (intro exI conjI)
      show "step_branches (hd ?flow) = Some bs" by (rule bs(1))
      show "length bs = 2" by (rule two)
      show "map branch_condition bs = [''yes'', '''']" by (rule conds)
    qed
  qed
qed

section \<open>C8: the traversal loop ends\<close>

text \<open>
  C8. For every adjacency (every finite graph) and every start node the \<^verbatim>\<open>while queue:\<close>
  loop of \<^verbatim>\<open>traverse_graph\<close> ends: after some number \<open>k\<close> of iterations, at most one more
  than three times the number of ids that occur as an edge target, the queue is empty and
  the state is the one the loop returns. Every \<^verbatim>\<open>queue.append\<close> of the loop goes with
  one increment of the id's \<^verbatim>\<open>visit_count\<close>, and no count ever exceeds 3. On the
  two-node cycle A \<rightarrow> B, B \<rightarrow> A the loop ends after 7 iterations with order A, B, and A and
  B are each appended to the queue exactly 3 times.
\<close>

theorem traverse_graph_terminates:
  "(\<exists>k. k \<le> 1 + 3 * card (adj_targets adj)
       \<and> queue ((bfs_step adj ^^ k) (initial_state start_node)) = []
       \<and> bfs_loop adj (initial_state start_node) = (bfs_step adj ^^ k) (initial_state start_node))
   \<and> (\<forall>n. visit_count (bfs_loop adj (initial_state start_node)) n \<le> 3)
   \<and> find_start_node cycle_nodes = Some ''A''
   \<and> queue ((bfs_step (fst (build_adjacency cycle_edges)) ^^ 6) (initial_state ''A'')) = [''A'']
   \<and> queue ((bfs_step (fst (build_adjacency cycle_edges)) ^^ 7) (initial_state ''A'')) = []
   \<and> order (bfs_loop (fst (build_adjacency cycle_edges)) (initial_state ''A'')) = [''A'', ''B'']
   \<and> visit_count (bfs_loop (fst (build_adjacency cycle_edges)) (initial_state ''A'')) ''A'' = 3
   \<and> visit_count (bfs_loop (fst (build_adjacency cycle_edges)) (initial_state ''A'')) ''B'' = 3"
proof -
  obtain k where k: "bfs_loop adj (initial_state start_node) = (bfs_step adj ^^ k) (initial_state start_node)"
    "k + bfs_measure adj (bfs_loop adj (initial_state start_node))
       = bfs_measure adj (initial_state start_node)"
    using bfs_loop_iterations by blast
  have "k \<le> 1 + 3 * card (adj_targets adj)"
    using k(2) by (simp add: bfs_measure_initial)
  moreover have "queue ((bfs_step adj ^^ k) (initial_state start_node)) = []"
    using bfs_loop_queue_empty [of adj "initial_state start_node"] k(1) by simp
  ultimately have ends: "\<exists>k. k \<le> 1 + 3 * card (adj_targets adj)
       \<and> queue ((bfs_step adj ^^ k) (initial_state start_node)) = []
       \<and> bfs_loop adj (initial_state start_node) = (bfs_step adj ^^ k) (initial_state start_node)"
    using k(1) by blast
  have bound: "\<forall>n. visit_count (bfs_loop adj (initial_state start_node)) n \<le> 3"
  proof
    fix n
    show "visit_count (bfs_loop adj (initial_state start_node)) n \<le> 3"
      by (rule bfs_loop_count_le) (simp add: initial_state_def)
  qed
  show ?thesis
    using ends bound cycle_start cycle_loop_order cycle_loop_count_A cycle_loop_count_B
      cycle_loop_iterations cycle_loop_last_iteration
    unfolding cycle_adjacency by blast
qed

text \<open>The theorem at the chain A \<rightarrow> B: one edge target, so at most 4 iterations.\<close>

theorem traverse_graph_terminates_witness:
  "(\<exists>k. k \<le> 4
       \<and> queue ((bfs_step [(''A'', [''B''])] ^^ k) (initial_state ''A'')) = []
       \<and> bfs_loop [(''A'', [''B''])] (initial_state ''A'')
           = (bfs_step [(''A'', [''B''])] ^^ k) (initial_state ''A''))
   \<and> visit_count (bfs_loop [(''A'', [''B''])] (initial_state ''A'')) ''B'' \<le> 3"
  using traverse_graph_terminates [of "[(''A'', [''B''])]" "''A''"]
  by (simp add: adj_targets_def)

section \<open>C9: the next\_id of a step\<close>

text \<open>
  C9. Every step of the execution flow carries a \<^verbatim>\<open>next_id\<close> if and only if its node
  has exactly one outgoing edge and its role, in lower case, is neither decision nor end;
  the \<^verbatim>\<open>next_id\<close> is then the target of that edge. The role of the step is the entry
  of the role map for the node, or Unknown.
\<close>

theorem next_id_single_successor:
  assumes "s \<in> set (fd_execution_flow
        (interpret_flowchart templates nodes edges roles traversal_order diagram_type))"
  shows "step_role s = dict_get roles (step_node_id s) ''Unknown''
    \<and> step_next_id s =
        (if length (filter (\<lambda>e. edge_source e = step_node_id s) edges) = 1
            \<and> lower (step_role s) \<noteq> ''decision'' \<and> lower (step_role s) \<noteq> ''end''
         then Some (edge_target (hd (filter (\<lambda>e. edge_source e = step_node_id s) edges)))
         else None)"
proof -
  let ?I = "build_id_to_node nodes" and ?N = "build_next_map edges"
  let ?outs = "filter (\<lambda>e. edge_source e = step_node_id s) edges"
  from execution_flow_step [OF assms] obtain n where
    n: "n \<in> set nodes" "node_id n = step_node_id s" "s = make_step templates ?I ?N roles n"
    by blast
  have role: "step_role s = dict_get roles (step_node_id s) ''Unknown''"
    using n(2) by (subst n(3)) simp
  have outs: "dict_get ?N (node_id n) [] =
      map (\<lambda>e. (edge_target e, lower (strip (edge_label e)))) ?outs"
    by (simp add: dict_get_build_next_map n(2))
  have next_id: "step_next_id s =
     (if length ?outs = 1 \<and> lower (step_role s) \<notin> set [''decision'', ''end'']
      then Some (fst (map (\<lambda>e. (edge_target e, lower (strip (edge_label e)))) ?outs ! 0))
      else None)"
    using n(2) role outs by (subst n(3)) (simp add: step_next_id_make_step)
  have single: "length ?outs = 1 \<Longrightarrow>
      fst (map (\<lambda>e. (edge_target e, lower (strip (edge_label e)))) ?outs ! 0)
        = edge_target (hd ?outs)"
    by (cases ?outs) simp_all
  from role next_id single show ?thesis
    by auto
qed

text \<open>
  The theorem at the first step of the four-node flowchart (one outgoing edge, role Start)
  and at its last step (no outgoing edge).
\<close>

theorem next_id_single_successor_witness:
  "hd (fd_execution_flow
        (interpret_flowchart [] scenario_nodes scenario_edges
           [(''n1'', ''Start''), (''n2'', ''Input''), (''n3'', ''Input''), (''n4'', ''Start'')]
           [''n1'', ''n2'', ''n3'', ''n4''] ''Flowchart''))
     \<in> set (fd_execution_flow
        (interpret_flowchart [] scenario_nodes scenario_edges
           [(''n1'', ''Start''), (''n2'', ''Input''), (''n3'', ''Input''), (''n4'', ''Start'')]
           [''n1'', ''n2'', ''n3'', ''n4''] ''Flowchart''))
   \<and> step_next_id (hd (fd_execution_flow
        (interpret_flowchart [] scenario_nodes scenario_edges
           [(''n1'', ''Start''), (''n2'', ''Input''), (''n3'', ''Input''), (''n4'', ''Start'')]
           [''n1'', ''n2'', ''n3'', ''n4''] ''Flowchart''))) = Some ''n2''
   \<and> step_next_id (last (fd_execution_flow
        (interpret_flowchart [] scenario_nodes scenario_edges
           [(''n1'', ''Start''), (''n2'', ''Input''), (''n3'', ''Input''), (''n4'', ''Start'')]
           [''n1'', ''n2'', ''n3'', ''n4''] ''Flowchart''))) = None"
proof -
  let ?flow = "fd_execution_flow
        (interpret_flowchart [] scenario_nodes scenario_edges
           [(''n1'', ''Start''), (''n2'', ''Input''), (''n3'', ''Input''), (''n4'', ''Start'')]
           [''n1'', ''n2'', ''n3'', ''n4''] ''Flowchart'')"
  have first: "hd ?flow \<in> set ?flow" and final: "last ?flow \<in> set ?flow"
    unfolding scenario_flow by simp_all
  have id_first: "step_node_id (hd ?flow) = ''n1''" and role_first: "step_role (hd ?flow) = ''Start''"
    and id_last: "step_node_id (last ?flow) = ''n4''"
    unfolding scenario_flow by simp_all
  have "step_next_id (hd ?flow) = Some ''n2''"
    using next_id_single_successor [OF first]
    unfolding id_first role_first by (simp add: scenario_edges_def lower_def lower_char_def)
  moreover have "step_next_id (last ?flow) = None"
    using next_id_single_successor [OF final]
    unfolding id_last by (simp add: scenario_edges_def)
  ultimately show ?thesis
    using first by (intro conjI)
qed

section \<open>C10: ids without a node\<close>








lemma chain_id_eq [simp]: "chain_id i = chain_id j \<longleftrightarrow> i = j"
  by (simp add: chain_id_def)











end
